theory Spec2Isabelle
  imports Main
begin

section \<open>Machine arithmetic of the source\<close>

text \<open>
  The container keeps every cursor and counter in a \<open>std::size_t\<close> (64 bits, unsigned,
  arithmetic modulo \<open>2 ^ 64\<close>) and switches to \<open>int\<close> (32 bits, two's complement) in the
  middle of several computations. Unsigned values are modelled as \<open>nat\<close> and signed ones
  as \<open>int\<close>; every conversion and every unsigned operation of the source is written out
  with its wrap-around. Arithmetic on \<open>int\<close> operands is exact: signed overflow is
  undefined in C++ and no operation below is read at such an input.
\<close>

definition size_t :: "int \<Rightarrow> nat" where
  \<comment> \<open>an integer value converted to \<open>std::size_t\<close>\<close>
  "size_t i = nat (i mod 2 ^ 64)"

definition to_int :: "nat \<Rightarrow> int" where
  \<comment> \<open>a \<open>std::size_t\<close> value converted to \<open>int\<close>: the low 32 bits, signed\<close>
  "to_int n = (int n + 2 ^ 31) mod 2 ^ 32 - 2 ^ 31"

definition size_add :: "nat \<Rightarrow> nat \<Rightarrow> nat" where
  "size_add a b = (a + b) mod 2 ^ 64"

definition size_sub :: "nat \<Rightarrow> nat \<Rightarrow> nat" where
  "size_sub a b = size_t (int a - int b)"

definition size_mul :: "nat \<Rightarrow> nat \<Rightarrow> nat" where
  "size_mul a b = (a * b) mod 2 ^ 64"

section \<open>Blocks, pointers and the free store\<close>

text \<open>
  A block is the raw array \<open>make_storage\<close> obtains from \<open>new\<close>: a slot is \<open>None\<close> until
  a value has been assigned to it. The block table \<open>external_storage\<close> is a vector of
  pointers, so the blocks live in a free store: an address is an index of the store, a
  released block is \<open>None\<close> there, and \<open>nullptr\<close> is the pointer \<open>None\<close>.
  The store is unbounded, so \<open>new\<close> always succeeds and returns an address not in use.

  Two results end an operation early. \<open>AssertionFailed\<close> is a failing \<open>assert\<close>
  (assertions are taken as compiled in). \<open>InvalidAccess\<close> stands for the accesses
  C++ leaves undefined: a vector index past the end, a null or released block, a slot
  outside its block, a second \<open>delete\<close> of the same block.
\<close>

type_synonym 'a block = "'a option list"
type_synonym 'a store = "'a block option list"
type_synonym pointer = "nat option"

datatype error = AssertionFailed | InvalidAccess

definition and_then :: "error + 'a \<Rightarrow> ('a \<Rightarrow> error + 'b) \<Rightarrow> error + 'b" where
  "and_then r f = (case r of Inl e \<Rightarrow> Inl e | Inr x \<Rightarrow> f x)"

definition initial_size :: nat where
  "initial_size = 64"

definition vec_at :: "'p list \<Rightarrow> nat \<Rightarrow> error + 'p" where
  \<comment> \<open>\<open>std::vector::operator[]\<close>: an index past the end is undefined behaviour\<close>
  "vec_at v i = (if i < length v then Inr (v ! i) else Inl InvalidAccess)"

definition load :: "'a store \<Rightarrow> pointer \<Rightarrow> nat \<Rightarrow> error + 'a option" where
  \<comment> \<open>the slot \<open>p[j]\<close>\<close>
  "load h p j =
     (case p of
        None \<Rightarrow> Inl InvalidAccess
      | Some a \<Rightarrow>
          (if a < length h then
             (case h ! a of
                None \<Rightarrow> Inl InvalidAccess
              | Some b \<Rightarrow> if j < length b then Inr (b ! j) else Inl InvalidAccess)
           else Inl InvalidAccess))"

definition store :: "'a store \<Rightarrow> pointer \<Rightarrow> nat \<Rightarrow> 'a \<Rightarrow> error + 'a store" where
  \<comment> \<open>the assignment \<open>p[j] = v\<close>\<close>
  "store h p j v =
     (case p of
        None \<Rightarrow> Inl InvalidAccess
      | Some a \<Rightarrow>
          (if a < length h then
             (case h ! a of
                None \<Rightarrow> Inl InvalidAccess
              | Some b \<Rightarrow>
                  if j < length b then Inr (h[a := Some (b[j := Some v])])
                  else Inl InvalidAccess)
           else Inl InvalidAccess))"

definition make_storage :: "'a store \<Rightarrow> pointer \<times> 'a store" where
  "make_storage h = (Some (length h), h @ [Some (replicate initial_size None)])"

definition delete_storage :: "pointer \<Rightarrow> 'a store \<Rightarrow> error + 'a store" where
  \<comment> \<open>\<open>delete p\<close>: nothing for \<open>nullptr\<close>, undefined for a block already released\<close>
  "delete_storage p h =
     (case p of
        None \<Rightarrow> Inr h
      | Some a \<Rightarrow>
          (if a < length h \<and> h ! a \<noteq> None then Inr (h[a := None])
           else Inl InvalidAccess))"

section \<open>The container\<close>

text \<open>
  The fields of \<open>Deque\<close>, with the free store the block pointers refer to as a last
  field \<open>heap\<close>. A reference returned by \<open>operator[]\<close>, \<open>at\<close>, \<open>front\<close> or \<open>back\<close>
  is modelled by the content of the slot it designates: \<open>Some v\<close> for a slot holding
  \<open>v\<close>, \<open>None\<close> for a slot never assigned.
\<close>

record 'a Deque =
  pivot :: nat
  current_first :: nat
  current_last :: nat
  first_storage :: nat
  last_storage :: nat
  external_storage_size :: nat
  external_capacity :: nat
  external_storage :: "pointer list"
  heap :: "'a store"

definition member_init :: "'a store \<Rightarrow> 'a Deque" where
  \<comment> \<open>the default member initialisers; the vector starts empty\<close>
  "member_init h =
     \<lparr> pivot = 0,
       current_first = (initial_size - 1) div 2 - 1,
       current_last = (initial_size - 1) div 2,
       first_storage = 0,
       last_storage = 0,
       external_storage_size = 0,
       external_capacity = initial_size,
       external_storage = [],
       heap = h \<rparr>"

definition Deque_default :: "'a store \<Rightarrow> 'a Deque" where
  \<comment> \<open>\<open>Deque()\<close>\<close>
  "Deque_default h =
     (let d = member_init h;
          (p0, h0) = make_storage h;
          (p1, h1) = make_storage h0
      in d\<lparr> external_storage := [p0, p1],
            external_capacity := size_mul initial_size 2,
            heap := h1 \<rparr>)"

subsection \<open>resize\<close>

function relink :: "nat \<Rightarrow> nat \<Rightarrow> nat \<Rightarrow> pointer list \<Rightarrow> pointer list \<Rightarrow> error + pointer list" where
  \<comment> \<open>the first loop of \<open>resize\<close>; \<open>i\<close> and \<open>storage\<close> index vectors, whose sizes are
      below \<open>2 ^ 64\<close>, so their increments do not wrap\<close>
  "relink i storage l old new =
     (if i \<le> l then
        (if i < length old \<and> storage < length new
         then relink (i + 1) (storage + 1) l old (new[storage := old ! i])
         else Inl InvalidAccess)
      else Inr new)"
  by pat_completeness auto
termination
  by (relation "measure (\<lambda>(i, storage, l, old, new). length old - i)") auto

fun delete_all :: "nat list \<Rightarrow> pointer list \<Rightarrow> 'a store \<Rightarrow> error + 'a store" where
  \<comment> \<open>\<open>delete external_storage[i]\<close> for each \<open>i\<close> of a loop's range\<close>
  "delete_all [] t h = Inr h"
| "delete_all (i # is) t h =
     and_then (vec_at t i) (\<lambda>p. and_then (delete_storage p h) (delete_all is t))"

fun fill :: "pointer list \<Rightarrow> 'a store \<Rightarrow> pointer list \<times> 'a store" where
  \<comment> \<open>the last loop of \<open>resize\<close>: a fresh block for every null entry\<close>
  "fill [] h = ([], h)"
| "fill (p # ps) h =
     (if p = None then
        (let (q, h') = make_storage h; (qs, h'') = fill ps h' in (q # qs, h''))
      else
        (let (qs, h'') = fill ps h in (p # qs, h'')))"

definition resize :: "'a Deque \<Rightarrow> error + 'a Deque" where
  "resize d =
     (let old = external_storage d;
          new_size = size_mul (length old) 2;
          new_external_storage = replicate new_size None;
          new_pivot = size_sub (new_size div 2) 1;
          upper_offset = to_int (size_sub (first_storage d) (pivot d));
          lower_offset = to_int (size_sub (last_storage d) (pivot d));
          storage = size_add new_pivot (size_t upper_offset)
      in and_then (relink (first_storage d) storage (last_storage d) old new_external_storage)
           (\<lambda>linked.
         and_then (delete_all [0 ..< first_storage d] old (heap d))
           (\<lambda>h1.
         and_then (delete_all [size_add (last_storage d) 1 ..< length old] old h1)
           (\<lambda>h2.
         (let (filled, h3) = fill linked h2
          in Inr (d\<lparr> pivot := new_pivot,
                     first_storage := size_add new_pivot (size_t upper_offset),
                     last_storage := size_add new_pivot (size_t lower_offset),
                     external_storage := filled,
                     external_capacity := size_mul (length filled) initial_size,
                     heap := h3 \<rparr>))))))"

subsection \<open>Lookup\<close>

definition get_size :: "'a Deque \<Rightarrow> nat" where
  "get_size d = external_storage_size d"

definition empty_deque :: "'a Deque \<Rightarrow> bool" where
  \<comment> \<open>\<open>empty()\<close>\<close>
  "empty_deque d = (external_storage_size d = 0)"

definition index_op :: "'a Deque \<Rightarrow> nat \<Rightarrow> error + 'a option" where
  \<comment> \<open>\<open>operator[]\<close>; the result is the slot the returned reference designates\<close>
  "index_op d i =
     (let idx = size_add i 1;
          (off, idx) =
            (if current_first d \<ge> initial_size
             then (size_add 0 1, size_sub idx (size_sub initial_size (current_first d)))
             else (0, size_add idx (current_first d)));
          off = size_add off (idx div initial_size);
          idx = idx mod initial_size
      in and_then (vec_at (external_storage d) (size_add (first_storage d) off))
           (\<lambda>p. load (heap d) p idx))"

definition at :: "'a Deque \<Rightarrow> nat \<Rightarrow> error + 'a option" where
  "at d i =
     (if i \<le> external_storage_size d then index_op d i else Inl AssertionFailed)"

definition front :: "'a Deque \<Rightarrow> error + 'a option" where
  "front d = (if \<not> empty_deque d then index_op d 0 else Inl AssertionFailed)"

definition back_elem :: "'a Deque \<Rightarrow> error + 'a option" where
  \<comment> \<open>\<open>back()\<close>\<close>
  "back_elem d =
     (if \<not> empty_deque d then index_op d (size_sub (external_storage_size d) 1)
      else Inl AssertionFailed)"

subsection \<open>Modifiers\<close>

definition push_front :: "'a \<Rightarrow> 'a Deque \<Rightarrow> error + 'a Deque" where
  "push_front source d =
     (let current_first_int = to_int (current_first d)
      in and_then (vec_at (external_storage d) (first_storage d))
           (\<lambda>p.
         and_then (store (heap d) p (current_first d) source)
           (\<lambda>h.
         (let d = d\<lparr> heap := h,
                     external_storage_size := size_add (external_storage_size d) 1 \<rparr>;
              current_first_int = current_first_int - 1
          in if current_first_int < 0 then
               (let d = d\<lparr> current_first := size_sub initial_size 1 \<rparr>;
                    first_storage_int = to_int (first_storage d)
                in and_then (if first_storage_int - 1 < 0 then resize d else Inr d)
                     (\<lambda>d. Inr (d\<lparr> first_storage := size_sub (first_storage d) 1 \<rparr>)))
             else Inr (d\<lparr> current_first := size_t current_first_int \<rparr>)))))"

definition push_back :: "'a \<Rightarrow> 'a Deque \<Rightarrow> error + 'a Deque" where
  "push_back source d =
     (let current_last_int = to_int (current_last d)
      in and_then (vec_at (external_storage d) (last_storage d))
           (\<lambda>p.
         and_then (store (heap d) p (current_last d) source)
           (\<lambda>h.
         (let d = d\<lparr> heap := h,
                     external_storage_size := size_add (external_storage_size d) 1 \<rparr>;
              current_last_int = current_last_int + 1
          in if size_t current_last_int \<ge> initial_size then
               (let d = d\<lparr> current_last := 0 \<rparr>;
                    last_storage_int = to_int (last_storage d)
                in and_then
                     (if last_storage_int + 1 \<ge> to_int (length (external_storage d))
                      then resize d else Inr d)
                     (\<lambda>d. Inr (d\<lparr> last_storage := size_add (last_storage d) 1 \<rparr>)))
             else Inr (d\<lparr> current_last := size_t current_last_int \<rparr>)))))"

definition pop_back :: "'a Deque \<Rightarrow> 'a Deque" where
  "pop_back d =
     (if \<not> empty_deque d then
        (let current_last_int = to_int (current_last d) - 1;
             d = (if current_last_int < 0
                  then d\<lparr> current_last := size_sub initial_size 1,
                          last_storage := size_sub (last_storage d) 1 \<rparr>
                  else d\<lparr> current_last := size_t current_last_int \<rparr>)
         in d\<lparr> external_storage_size := size_sub (external_storage_size d) 1 \<rparr>)
      else d)"

definition pop_front :: "'a Deque \<Rightarrow> 'a Deque" where
  "pop_front d =
     (if \<not> empty_deque d then
        (let current_first_int = to_int (current_first d) + 1;
             d = (if size_t current_first_int \<ge> initial_size
                  then d\<lparr> current_first := 0,
                          first_storage := size_add (first_storage d) 1 \<rparr>
                  else d\<lparr> current_first := size_t current_first_int \<rparr>)
         in d\<lparr> external_storage_size := size_sub (external_storage_size d) 1 \<rparr>)
      else d)"

definition Deque_from :: "'a list \<Rightarrow> 'a store \<Rightarrow> error + 'a Deque" where
  \<comment> \<open>\<open>Deque(source, size)\<close>, the buffer given as the list of its \<open>size\<close> elements: the
      members take their default initialisers and the body pushes every element\<close>
  "Deque_from source h =
     fold (\<lambda>x r. and_then r (push_back x)) source (Inr (member_init h))"

subsection \<open>Sequences of calls\<close>

datatype 'a call = PushFront 'a | PushBack 'a | PopFront | PopBack

fun apply_call :: "'a call \<Rightarrow> 'a Deque \<Rightarrow> error + 'a Deque" where
  "apply_call (PushFront v) d = push_front v d"
| "apply_call (PushBack v) d = push_back v d"
| "apply_call PopFront d = Inr (pop_front d)"
| "apply_call PopBack d = Inr (pop_back d)"

fun run :: "'a call list \<Rightarrow> 'a Deque \<Rightarrow> error + 'a Deque" where
  \<comment> \<open>the calls in order; the first failure ends the run\<close>
  "run [] d = Inr d"
| "run (c # cs) d = and_then (apply_call c d) (run cs)"

fun drain_back :: "nat \<Rightarrow> 'a Deque \<Rightarrow> (error + 'a option) list" where
  \<comment> \<open>\<open>n\<close> times: read \<open>back()\<close>, then \<open>pop_back()\<close>\<close>
  "drain_back 0 d = []"
| "drain_back (Suc n) d = back_elem d # drain_back n (pop_back d)"

text \<open>
  The sequence of values a run of calls leaves in the container, as the specification
  describes the container: a push adds at its end, a pop removes there and does nothing
  to an empty sequence.
\<close>

fun logical_call :: "'a call \<Rightarrow> 'a list \<Rightarrow> 'a list" where
  "logical_call (PushFront v) xs = v # xs"
| "logical_call (PushBack v) xs = xs @ [v]"
| "logical_call PopFront xs = tl xs"
| "logical_call PopBack xs = butlast xs"

definition logical :: "'a call list \<Rightarrow> 'a list" where
  "logical cs = fold logical_call cs []"

section \<open>The iterator\<close>

text \<open>
  The fields of \<open>Deque_iterator\<close> are \<open>int\<close>s; the vector of block pointers is copied,
  so the iterator shares the blocks with the container. \<open>initial_size\<close> is the
  container's constant, a \<open>std::size_t\<close>: inside the iterator every comparison and
  every operation with it converts the \<open>int\<close> operand to \<open>std::size_t\<close>, and an
  assignment back to a field converts the result to \<open>int\<close>.

  In the source \<open>initial_size\<close> is a non-static member of \<open>Deque\<close>, and the nested
  class names it without an object: C++ refuses that where the constructor, \<open>+=\<close> and
  \<open>-=\<close> are instantiated, so \<open>begin()\<close>, \<open>end()\<close> and the two operators do not
  compile as the header stands. The definitions below follow the text of the source and
  read the name as the value it has in every container, 64; what they establish is what
  the iterator does once the constant is made reachable, and nothing the header does as it
  is written.
\<close>

record Deque_iterator =
  offset :: int
  index :: int
  storage :: "pointer list"
  pivot_it :: int

definition Deque_iterator :: "int \<Rightarrow> int \<Rightarrow> pointer list \<Rightarrow> int \<Rightarrow> Deque_iterator" where
  "Deque_iterator current_position current_storage storage' pivot' =
     (let it = \<lparr> offset = 0, index = 0, storage = storage', pivot_it = pivot' \<rparr>
      in if size_t current_position \<ge> initial_size then it\<lparr> offset := offset it + 1 \<rparr>
         else if current_position < 0 then it\<lparr> offset := offset it - 1 \<rparr>
         else it)"

definition get_value :: "'a store \<Rightarrow> Deque_iterator \<Rightarrow> error + 'a option" where
  "get_value h it = and_then (vec_at (storage it) 0) (\<lambda>p. load h p 17)"

definition plus_assign :: "Deque_iterator \<Rightarrow> int \<Rightarrow> Deque_iterator" where
  \<comment> \<open>\<open>operator+=\<close>\<close>
  "plus_assign it linear_offset =
     (let it = it\<lparr> index := index it + linear_offset \<rparr>
      in if size_t (index it) \<ge> initial_size then
           (let it = it\<lparr> offset :=
                        to_int (size_add (size_t (offset it)) (size_t (index it) div initial_size)) \<rparr>
            in it\<lparr> index :=
                      to_int (size_add (size_t (index it)) (size_t (index it) mod initial_size)) \<rparr>)
         else it)"

definition minus_assign :: "Deque_iterator \<Rightarrow> int \<Rightarrow> Deque_iterator" where
  \<comment> \<open>\<open>operator-=\<close>\<close>
  "minus_assign it linear_offset =
     (let it = it\<lparr> index := index it - linear_offset \<rparr>
      in if index it < 0 then
           (let it = it\<lparr> offset :=
                        to_int (size_sub (size_t (offset it))
                                  (size_add (size_t \<bar>index it\<bar> div initial_size) 1)) \<rparr>
            in it\<lparr> index :=
                      to_int (size_add (size_t (index it))
                                (size_mul (size_add (size_t \<bar>index it\<bar> div initial_size) 1)
                                   initial_size)) \<rparr>)
         else it)"

definition not_equal_it :: "Deque_iterator \<Rightarrow> Deque_iterator \<Rightarrow> bool" where
  \<comment> \<open>\<open>operator!=\<close>\<close>
  "not_equal_it first other = (offset first \<noteq> offset other \<and> index first \<noteq> index other)"

definition plus_it :: "Deque_iterator \<Rightarrow> int \<Rightarrow> Deque_iterator" where
  \<comment> \<open>\<open>operator+\<close>: \<open>+=\<close> on a copy\<close>
  "plus_it other linear_offset = plus_assign other linear_offset"

definition minus_it :: "Deque_iterator \<Rightarrow> int \<Rightarrow> Deque_iterator" where
  \<comment> \<open>\<open>operator-\<close>: \<open>-=\<close> on a copy\<close>
  "minus_it other linear_offset = minus_assign other linear_offset"

definition begin_it :: "'a Deque \<Rightarrow> Deque_iterator" where
  \<comment> \<open>\<open>begin()\<close>\<close>
  "begin_it d =
     (let int_current_first = to_int (size_add (current_first d) 1);
          int_first_storage = to_int (first_storage d);
          int_pivot = to_int (pivot d)
      in Deque_iterator int_current_first int_first_storage (external_storage d) int_pivot)"


section \<open>The element an iterator designates, as specified\<close>

text \<open>
  The specification asks that dereferencing resolve to the element at
  \<open>(pivot + offset, index)\<close> of the block table the iterator refers to. This definition
  follows those words, so that \<open>get_value\<close> can be compared with it.
\<close>

definition element_at :: "'a store \<Rightarrow> Deque_iterator \<Rightarrow> error + 'a option" where
  "element_at h it =
     and_then (vec_at (storage it) (size_t (pivot_it it + offset it)))
       (\<lambda>p. load h p (size_t (index it)))"

section \<open>A container whose front cursor is at the end of its block\<close>


section \<open>The representation invariant\<close>

text \<open>
  A table entry is valid when it points to a live block of \<open>initial_size\<close> slots; the
  table is in order when its entries are valid and no two of them point to the same block.
\<close>

definition valid_block :: "'a store \<Rightarrow> pointer \<Rightarrow> bool" where
  "valid_block h p =
     (case p of
        None \<Rightarrow> False
      | Some a \<Rightarrow>
          a < length h \<and> (case h ! a of None \<Rightarrow> False | Some b \<Rightarrow> length b = initial_size))"

definition table_ok :: "pointer list \<Rightarrow> 'a store \<Rightarrow> bool" where
  "table_ok t h = (distinct t \<and> (\<forall>p \<in> set t. valid_block h p))"

text \<open>
  Slots are numbered along the table: position \<open>p\<close> is slot \<open>p mod initial_size\<close> of the
  block at table index \<open>p div initial_size\<close>. The first element sits one slot after the
  front cursor, and the back cursor is the slot after the last element.
\<close>

definition cell_at :: "pointer list \<Rightarrow> 'a store \<Rightarrow> nat \<Rightarrow> error + 'a option" where
  "cell_at t h p =
     and_then (vec_at t (p div initial_size)) (\<lambda>q. load h q (p mod initial_size))"

definition front_pos :: "'a Deque \<Rightarrow> nat" where
  "front_pos d = first_storage d * initial_size + current_first d + 1"

definition back_pos :: "'a Deque \<Rightarrow> nat" where
  "back_pos d = last_storage d * initial_size + current_last d"

text \<open>
  \<open>deque_inv d xs k\<close>: after \<open>k\<close> calls the container \<open>d\<close> holds the sequence \<open>xs\<close>.
  The pivot is the middle of the table, the cursors stay inside their blocks, the counter
  is the number of slots between the cursors, and these slots hold \<open>xs\<close> in order. The
  last three conjuncts bound the table by the number of calls: a cursor moves one slot per
  call and \<open>resize\<close> moves both cursors back to the middle half of the doubled table, so
  the table has at most \<open>(k + 35) div 16\<close> entries.
\<close>

definition deque_inv :: "'a Deque \<Rightarrow> 'a list \<Rightarrow> nat \<Rightarrow> bool" where
  "deque_inv d xs k =
     (let n = length (external_storage d) in
        table_ok (external_storage d) (heap d) \<and>
        2 * (pivot d + 1) = n \<and>
        current_first d < initial_size \<and>
        current_last d < initial_size \<and>
        last_storage d < n \<and>
        external_storage_size d = length xs \<and>
        front_pos d + length xs = back_pos d \<and>
        (\<forall>i \<in> {0 ..< length xs}.
           cell_at (external_storage d) (heap d) (front_pos d + i) = Inr (Some (xs ! i))) \<and>
        16 * n \<le> k + 35 \<and>
        32 * n + 1 \<le> front_pos d + k + 34 \<and>
        back_pos d \<le> 32 * n + k + 34)"

section \<open>Arithmetic within range\<close>

lemma and_then_simps [simp]:
  "and_then (Inl e) f = Inl e" "and_then (Inr x) f = f x"
  by (simp_all add: and_then_def)

lemma size_add_small: "a + b < 2 ^ 64 \<Longrightarrow> size_add a b = a + b"
  by (simp add: size_add_def)

lemma size_mul_small: "a * b < 2 ^ 64 \<Longrightarrow> size_mul a b = a * b"
  by (simp add: size_mul_def)

lemma size_t_small: "0 \<le> i \<Longrightarrow> i < 2 ^ 64 \<Longrightarrow> size_t i = nat i"
  by (simp add: size_t_def)


lemma size_sub_small: "b \<le> a \<Longrightarrow> a < 2 ^ 64 \<Longrightarrow> size_sub a b = a - b"
  by (simp add: size_sub_def size_t_def nat_diff_distrib')

lemma to_int_small: "n < 2 ^ 31 \<Longrightarrow> to_int n = int n"
  by (simp add: to_int_def)

lemma mod_neg_wrap:
  assumes "- m \<le> x" "x < 0"
  shows "(x::int) mod m = x + m"
proof -
  have "x mod m = (x + m) mod m" by simp
  also have "\<dots> = x + m" using assms by (intro mod_pos_pos_trivial) simp_all
  finally show ?thesis .
qed

lemma to_int_size_sub:
  assumes "a < 2 ^ 31" "b < 2 ^ 31"
  shows "to_int (size_sub a b) = int a - int b"
proof (cases "b \<le> a")
  case True
  with assms show ?thesis by (simp add: size_sub_small to_int_small of_nat_diff)
next
  case False
  define x where "x = int a - int b"
  have x: "- (2 ^ 31) < x" "x < 0" using assms False by (simp_all add: x_def)
  have "x mod 2 ^ 64 = x + 2 ^ 64"
    using x by (intro mod_neg_wrap) simp_all
  then have s: "int (size_sub a b) = x + 2 ^ 64"
    using x by (simp add: size_sub_def size_t_def x_def)
  have "(x + 2 ^ 64 + 2 ^ 31) mod 2 ^ 32 = ((x + 2 ^ 31) + 2 ^ 32 * 2 ^ 32) mod (2 ^ 32 :: int)"
    by simp
  also have "\<dots> = (x + 2 ^ 31) mod 2 ^ 32"
    by (rule mod_mult_self2)
  also have "\<dots> = x + 2 ^ 31" using x by (intro mod_pos_pos_trivial) simp_all
  finally show ?thesis by (simp add: to_int_def s x_def)
qed

lemma mod_add_self3: "(x + (y + m)) mod m = (x + y) mod (m::int)"
  using mod_add_self2 [of "x + y" m] by (simp add: add.assoc)

lemma size_add_size_t:
  assumes "a < 2 ^ 63" "- (2 ^ 63) < i" "i < 2 ^ 63" "0 \<le> int a + i"
  shows "size_add a (size_t i) = nat (int a + i)"
proof (cases "0 \<le> i")
  case True
  with assms show ?thesis
    by (simp add: size_add_def size_t_def nat_add_distrib)
next
  case False
  then have "i mod 2 ^ 64 = i + 2 ^ 64" using assms by (intro mod_neg_wrap) simp_all
  moreover have "(i + int a) mod 2 ^ 64 = i + int a"
    using assms by (intro mod_pos_pos_trivial) simp_all
  ultimately have "int (size_add a (size_t i)) = int a + i"
    using assms False by (simp add: size_add_def size_t_def zmod_int mod_add_self3)
  then show ?thesis by linarith
qed

section \<open>The loops of \<open>resize\<close>\<close>

lemma valid_blockE:
  assumes "valid_block h p"
  obtains a b where "p = Some a" "a < length h" "h ! a = Some b" "length b = initial_size"
  using assms by (auto simp: valid_block_def split: option.splits)

lemma valid_blockI:
  "a < length h \<Longrightarrow> h ! a = Some b \<Longrightarrow> length b = initial_size \<Longrightarrow> valid_block h (Some a)"
  by (simp add: valid_block_def)

lemma valid_block_append: "valid_block h p \<Longrightarrow> valid_block (h @ h') p"
  by (auto simp: valid_block_def nth_append split: option.splits)

lemma relink_result:
  "l < length old \<Longrightarrow> i \<le> Suc l \<Longrightarrow> st + (Suc l - i) \<le> length new \<Longrightarrow>
   relink i st l old new = Inr (take st new @ take (Suc l - i) (drop i old) @ drop (st + (Suc l - i)) new)"
proof (induction i st l old new rule: relink.induct)
  case (1 i st l old new)
  show ?case
  proof (cases "i \<le> l")
    case False
    with "1.prems" have "Suc l - i = 0" by simp
    with False show ?thesis by (subst relink.simps) simp
  next
    case True
    with "1.prems" have a: "i < length old" "st < length new" by simp_all
    from True have s: "Suc l - i = Suc (Suc l - (i + 1))" by simp
    have t: "take (st + 1) (new[st := old ! i]) = take st new @ [old ! i]"
      using a by (simp add: take_Suc_conv_app_nth)
    have d: "drop (st + 1 + (Suc l - (i + 1))) (new[st := old ! i]) = drop (st + (Suc l - i)) new"
      using True by (simp add: Suc_diff_le)
    have "drop i old = old ! i # drop (i + 1) old"
      using a by (simp add: Cons_nth_drop_Suc)
    then have o: "take (Suc l - i) (drop i old) = old ! i # take (Suc l - (i + 1)) (drop (i + 1) old)"
      by (simp add: s)
    have "relink i st l old new = relink (i + 1) (st + 1) l old (new[st := old ! i])"
      using True a by (subst relink.simps) simp
    also have "\<dots> = Inr (take (st + 1) (new[st := old ! i]) @ take (Suc l - (i + 1)) (drop (i + 1) old)
          @ drop (st + 1 + (Suc l - (i + 1))) (new[st := old ! i]))"
      using True a "1.prems" by (intro "1.IH") simp_all
    finally show ?thesis by (simp only: t d o append_Cons append_Nil append_assoc)
  qed
qed

lemma fill_length: "length (fst (fill ps h)) = length ps"
  by (induction ps arbitrary: h) (simp_all add: make_storage_def split_beta)

lemma fill_store: "\<exists>m. snd (fill ps h) = h @ replicate m (Some (replicate initial_size None))"
proof (induction ps arbitrary: h)
  case Nil
  show ?case by simp
next
  case (Cons p ps)
  show ?case
  proof (cases "p = None")
    case True
    from Cons [of "h @ [Some (replicate initial_size None)]"]
    obtain m where "snd (fill ps (h @ [Some (replicate initial_size None)])) =
        h @ replicate (Suc m) (Some (replicate initial_size None))"
      by (auto simp: replicate_app_Cons_same)
    with True show ?thesis
      by (simp add: make_storage_def split_beta) (rule exI [of _ "Suc m"], simp)
  next
    case False
    with Cons [of h] show ?thesis by (auto simp: split_beta)
  qed
qed

lemma fill_entries:
  "q \<in> set (fst (fill ps h)) \<Longrightarrow>
   (q \<noteq> None \<and> q \<in> set ps) \<or> (\<exists>a. q = Some a \<and> length h \<le> a \<and> a < length (snd (fill ps h)))"
proof (induction ps arbitrary: h)
  case Nil
  then show ?case by simp
next
  case (Cons p ps)
  obtain m where m: "snd (fill ps h) = h @ replicate m (Some (replicate initial_size None))"
    using fill_store by blast
  obtain m' where m': "snd (fill ps (h @ [Some (replicate initial_size None)])) =
     (h @ [Some (replicate initial_size None)]) @ replicate m' (Some (replicate initial_size None))"
    using fill_store by blast
  show ?case
  proof (cases "p = None")
    case True
    with Cons.prems have "q = Some (length h) \<or> q \<in> set (fst (fill ps (h @ [Some (replicate initial_size None)])))"
      by (auto simp: make_storage_def split: prod.splits)
    then show ?thesis
    proof
      assume "q = Some (length h)"
      with True m' show ?thesis by (auto simp: make_storage_def split: prod.splits)
    next
      assume "q \<in> set (fst (fill ps (h @ [Some (replicate initial_size None)])))"
      from Cons.IH [OF this] True show ?thesis
        by (auto simp: make_storage_def split: prod.splits)
    qed
  next
    case False
    with Cons.prems have "q = p \<or> q \<in> set (fst (fill ps h))"
      by (auto split: prod.splits)
    then show ?thesis
    proof
      assume "q = p" with False show ?thesis by simp
    next
      assume "q \<in> set (fst (fill ps h))"
      from Cons.IH [OF this] False show ?thesis by (auto split: prod.splits)
    qed
  qed
qed

lemma fill_keeps: "i < length ps \<Longrightarrow> ps ! i \<noteq> None \<Longrightarrow> fst (fill ps h) ! i = ps ! i"
proof (induction ps arbitrary: h i)
  case Nil
  then show ?case by simp
next
  case (Cons p ps)
  then show ?case by (cases i) (auto simp: split_beta)
qed

lemma fill_table:
  assumes "distinct (filter (\<lambda>p. p \<noteq> None) ps)"
    and "\<forall>p \<in> set ps. p \<noteq> None \<longrightarrow> valid_block h p"
  shows "distinct (fst (fill ps h)) \<and> (\<forall>q \<in> set (fst (fill ps h)). valid_block (snd (fill ps h)) q)"
  using assms
proof (induction ps arbitrary: h)
  case Nil
  then show ?case by simp
next
  case (Cons p ps)
  show ?case
  proof (cases "p = None")
    case True
    define h' where "h' = h @ [Some (replicate initial_size (None :: 'a option))]"
    have f: "fill (p # ps) h = (Some (length h) # fst (fill ps h'), snd (fill ps h'))"
      using True by (simp add: make_storage_def split_beta h'_def)
    have v: "\<forall>p \<in> set ps. p \<noteq> None \<longrightarrow> valid_block h' p"
      using Cons.prems by (auto simp: h'_def intro: valid_block_append)
    from Cons.prems have "distinct (filter (\<lambda>p. p \<noteq> None) ps)" by (simp split: if_splits)
    from Cons.IH [OF this v]
    have ih: "distinct (fst (fill ps h'))" "\<forall>q \<in> set (fst (fill ps h')). valid_block (snd (fill ps h')) q"
      by simp_all
    have fresh: "Some (length h) \<notin> set (fst (fill ps h'))"
    proof
      assume "Some (length h) \<in> set (fst (fill ps h'))"
      from fill_entries [OF this] show False
      proof
        assume "Some (length h) \<noteq> None \<and> Some (length h) \<in> set ps"
        with Cons.prems have "valid_block h (Some (length h))" by auto
        then show False by (simp add: valid_block_def)
      next
        assume "\<exists>a. Some (length h) = Some a \<and> length h' \<le> a \<and> a < length (snd (fill ps h'))"
        then show False by (simp add: h'_def)
      qed
    qed
    obtain m where m: "snd (fill ps h') = h' @ replicate m (Some (replicate initial_size None))"
      using fill_store by blast
    have "valid_block h' (Some (length h))"
      by (simp add: h'_def valid_block_def)
    then have "valid_block (snd (fill ps h')) (Some (length h))"
      unfolding m by (rule valid_block_append)
    with ih fresh show ?thesis unfolding f by simp
  next
    case False
    have f: "fill (p # ps) h = (p # fst (fill ps h), snd (fill ps h))"
      using False by (auto simp: split_beta)
    from Cons.prems False have d: "distinct (filter (\<lambda>p. p \<noteq> None) ps)" "p \<notin> set ps"
      by simp_all
    from Cons.prems have v: "\<forall>p \<in> set ps. p \<noteq> None \<longrightarrow> valid_block h p" by simp
    from Cons.IH [OF d(1) v]
    have ih: "distinct (fst (fill ps h))" "\<forall>q \<in> set (fst (fill ps h)). valid_block (snd (fill ps h)) q"
      by simp_all
    from Cons.prems False have vp: "valid_block h p" by simp
    have fresh: "p \<notin> set (fst (fill ps h))"
    proof
      assume "p \<in> set (fst (fill ps h))"
      from fill_entries [OF this] show False
      proof
        assume "p \<noteq> None \<and> p \<in> set ps"
        with d show False by simp
      next
        assume "\<exists>a. p = Some a \<and> length h \<le> a \<and> a < length (snd (fill ps h))"
        with vp show False by (auto simp: valid_block_def)
      qed
    qed
    obtain m where m: "snd (fill ps h) = h @ replicate m (Some (replicate initial_size None))"
      using fill_store by blast
    have "valid_block (snd (fill ps h)) p"
      unfolding m using vp by (rule valid_block_append)
    with ih fresh show ?thesis unfolding f by simp
  qed
qed

lemma delete_all_result:
  assumes "distinct (map ((!) t) is)"
    and "\<forall>i \<in> set is. i < length t \<and> (\<exists>a. t ! i = Some a \<and> a < length h \<and> h ! a \<noteq> None)"
  shows "\<exists>h'. delete_all is t h = Inr h' \<and> length h' = length h \<and>
           (\<forall>a < length h. Some a \<notin> (!) t ` set is \<longrightarrow> h' ! a = h ! a)"
  using assms
proof (induction "is" arbitrary: h)
  case Nil
  then show ?case by simp
next
  case (Cons i "is")
  from Cons.prems obtain a where a: "i < length t" "t ! i = Some a" "a < length h" "h ! a \<noteq> None"
    by auto
  define h1 where "h1 = h[a := None]"
  have step: "delete_all (i # is) t h = delete_all is t h1"
    using a by (simp add: vec_at_def delete_storage_def h1_def)
  have "\<forall>j \<in> set is. j < length t \<and> (\<exists>b. t ! j = Some b \<and> b < length h1 \<and> h1 ! b \<noteq> None)"
  proof
    fix j assume j: "j \<in> set is"
    with Cons.prems obtain b where b: "j < length t" "t ! j = Some b" "b < length h" "h ! b \<noteq> None"
      by auto
    from Cons.prems j have "t ! i \<noteq> t ! j" by auto
    with a b have "a \<noteq> b" by auto
    with b show "j < length t \<and> (\<exists>b. t ! j = Some b \<and> b < length h1 \<and> h1 ! b \<noteq> None)"
      by (simp add: h1_def)
  qed
  moreover from Cons.prems have "distinct (map ((!) t) is)" by simp
  ultimately obtain h' where h': "delete_all is t h1 = Inr h'" "length h' = length h1"
      "\<forall>a < length h1. Some a \<notin> (!) t ` set is \<longrightarrow> h' ! a = h1 ! a"
    using Cons.IH [of h1] by blast
  have "\<forall>b < length h. Some b \<notin> (!) t ` set (i # is) \<longrightarrow> h' ! b = h ! b"
  proof (intro allI impI)
    fix b assume b: "b < length h" "Some b \<notin> (!) t ` set (i # is)"
    then have "b \<noteq> a" using a by auto
    moreover from b h' have "h' ! b = h1 ! b" by (simp add: h1_def)
    ultimately show "h' ! b = h ! b" by (simp add: h1_def)
  qed
  with h' step show ?case by (simp add: h1_def)
qed

lemma map_nth_take: "k \<le> length t \<Longrightarrow> map ((!) t) [0..<k] = take k t"
  by (simp add: list_eq_iff_nth_eq)

lemma map_nth_drop: "map ((!) t) [k..<length t] = drop k t"
  by (simp add: list_eq_iff_nth_eq)

lemma resize_result:
  fixes d :: "'a Deque"
  defines "t \<equiv> external_storage d" and "h \<equiv> heap d"
  defines "fs \<equiv> first_storage d" and "ls \<equiv> last_storage d" and "sh \<equiv> pivot d + 1"
  assumes dist: "distinct t"
    and valid: "\<forall>p \<in> set t. valid_block h p"
    and piv: "2 * (pivot d + 1) = length t"
    and ord: "fs \<le> ls" "ls < length t"
    and small: "length t < 2 ^ 30"
  shows "\<exists>filled h3.
           resize d = Inr (d\<lparr> pivot := length t - 1,
                              first_storage := fs + sh,
                              last_storage := ls + sh,
                              external_storage := filled,
                              external_capacity := 2 * length t * initial_size,
                              heap := h3 \<rparr>) \<and>
           length filled = 2 * length t \<and> distinct filled \<and>
           (\<forall>q \<in> set filled. valid_block h3 q) \<and>
           (\<forall>j. fs \<le> j \<and> j \<le> ls \<longrightarrow>
                filled ! (j + sh) = t ! j \<and> (\<forall>a. t ! j = Some a \<longrightarrow> h3 ! a = h ! a))"
proof -
  define n where "n = length t"
  have n: "n < 2 ^ 30" "2 * sh = n" "ls < n" "fs < n" "sh < n" "pivot d < n"
    using small piv ord by (simp_all add: n_def sh_def)
  have live: "\<exists>a. t ! i = Some a \<and> a < length h \<and> h ! a \<noteq> None" if "i < n" for i
  proof -
    from that have "t ! i \<in> set t" by (simp add: n_def)
    with valid have "valid_block h (t ! i)" by blast
    then show ?thesis by (auto elim!: valid_blockE)
  qed
  \<comment> \<open>the arithmetic of the new positions\<close>
  have new_size: "size_mul n 2 = 2 * n"
    using n by (simp add: size_mul_small n_def)
  have new_pivot: "size_sub ((2 * n) div 2) 1 = n - 1"
    using n by (simp add: size_sub_small)
  have up: "to_int (size_sub fs (pivot d)) = int fs - int (pivot d)"
    using n by (intro to_int_size_sub) simp_all
  have lo: "to_int (size_sub ls (pivot d)) = int ls - int (pivot d)"
    using n by (intro to_int_size_sub) simp_all
  have st: "size_add (n - 1) (size_t (int fs - int (pivot d))) = fs + sh"
  proof -
    have "size_add (n - 1) (size_t (int fs - int (pivot d))) = nat (int (n - 1) + (int fs - int (pivot d)))"
      using n by (intro size_add_size_t) (simp_all add: sh_def)
    also have "\<dots> = fs + sh" using n by (simp add: sh_def)
    finally show ?thesis .
  qed
  have st': "size_add (n - 1) (size_t (int ls - int (pivot d))) = ls + sh"
  proof -
    have "size_add (n - 1) (size_t (int ls - int (pivot d))) = nat (int (n - 1) + (int ls - int (pivot d)))"
      using n by (intro size_add_size_t) (simp_all add: sh_def)
    also have "\<dots> = ls + sh" using n by (simp add: sh_def)
    finally show ?thesis .
  qed
  have ls1: "size_add ls 1 = Suc ls"
    using n by (simp add: size_add_small)
  \<comment> \<open>the first loop\<close>
  define linked where
    "linked = replicate (fs + sh) None @ take (Suc ls - fs) (drop fs t) @ replicate (2 * n - (sh + Suc ls)) None"
  have relinked: "relink fs (fs + sh) ls t (replicate (2 * n) None) = Inr linked"
  proof -
    have "relink fs (fs + sh) ls t (replicate (2 * n) None) =
      Inr (take (fs + sh) (replicate (2 * n) None) @ take (Suc ls - fs) (drop fs t)
           @ drop (fs + sh + (Suc ls - fs)) (replicate (2 * n) None))"
      using n ord by (intro relink_result) (simp_all add: n_def)
    also have "take (fs + sh) (replicate (2 * n) (None :: pointer)) = replicate (fs + sh) None"
      using n by (simp add: min_def)
    also have "drop (fs + sh + (Suc ls - fs)) (replicate (2 * n) (None :: pointer)) =
        replicate (2 * n - (sh + Suc ls)) None"
      using ord by simp
    finally show ?thesis by (simp add: linked_def)
  qed
  have linked_len: "length linked = 2 * n"
    using n ord by (simp add: linked_def n_def)
  have linked_nth: "linked ! (j + sh) = t ! j" if "fs \<le> j" "j \<le> ls" for j
  proof -
    from that have "j - fs < Suc ls - fs" by arith
    with that n show ?thesis by (simp add: linked_def nth_append n_def)
  qed
  have linked_set: "set linked \<subseteq> insert None (set (take (Suc ls - fs) (drop fs t)))"
    by (auto simp: linked_def)
  have kept: "\<exists>j. fs \<le> j \<and> j \<le> ls \<and> p = t ! j" if "p \<in> set (take (Suc ls - fs) (drop fs t))" for p
  proof -
    from that obtain k where "k < length (take (Suc ls - fs) (drop fs t))" "p = take (Suc ls - fs) (drop fs t) ! k"
      by (auto simp: in_set_conv_nth)
    then have "fs \<le> fs + k \<and> fs + k \<le> ls \<and> p = t ! (fs + k)"
      using n by (auto simp: n_def)
    then show ?thesis by blast
  qed
  \<comment> \<open>the two loops that release the blocks outside the range\<close>
  obtain h1 where h1: "delete_all [0..<fs] t h = Inr h1" "length h1 = length h"
      "\<forall>a < length h. Some a \<notin> (!) t ` set [0..<fs] \<longrightarrow> h1 ! a = h ! a"
  proof -
    have "distinct (map ((!) t) [0..<fs])"
      using n dist by (simp add: map_nth_take n_def)
    moreover have "\<forall>i \<in> set [0..<fs]. i < length t \<and> (\<exists>a. t ! i = Some a \<and> a < length h \<and> h ! a \<noteq> None)"
      using n live by (auto simp: n_def)
    ultimately show ?thesis using delete_all_result [of t "[0..<fs]" h] that by blast
  qed
  have untouched1: "h1 ! a = h ! a" if "fs \<le> j" "j < n" "t ! j = Some a" for j a
  proof -
    have "Some a \<notin> (!) t ` set [0..<fs]"
    proof
      assume "Some a \<in> (!) t ` set [0..<fs]"
      then obtain i where i: "i < fs" "t ! i = Some a" by auto
      with that have "t ! i = t ! j" "i < length t" "j < length t" "i \<noteq> j"
        by (simp_all add: n_def)
      with dist show False by (simp add: nth_eq_iff_index_eq)
    qed
    moreover from live [OF that(2)] that have "a < length h" by simp
    ultimately show ?thesis using h1 by simp
  qed
  obtain h2 where h2: "delete_all [Suc ls..<n] t h1 = Inr h2" "length h2 = length h1"
      "\<forall>a < length h1. Some a \<notin> (!) t ` set [Suc ls..<n] \<longrightarrow> h2 ! a = h1 ! a"
  proof -
    have "distinct (map ((!) t) [Suc ls..<n])"
      using dist by (simp add: map_nth_drop n_def)
    moreover have "\<forall>i \<in> set [Suc ls..<n]. i < length t \<and> (\<exists>a. t ! i = Some a \<and> a < length h1 \<and> h1 ! a \<noteq> None)"
    proof
      fix i assume "i \<in> set [Suc ls..<n]"
      then have i: "fs \<le> i" "i < n" using ord by simp_all
      from live [OF i(2)] obtain a where a: "t ! i = Some a" "a < length h" "h ! a \<noteq> None" by blast
      with untouched1 [OF i a(1)] h1 i
      show "i < length t \<and> (\<exists>a. t ! i = Some a \<and> a < length h1 \<and> h1 ! a \<noteq> None)"
        by (simp add: n_def)
    qed
    ultimately show ?thesis using delete_all_result [of t "[Suc ls..<n]" h1] that by blast
  qed
  have untouched: "h2 ! a = h ! a" if "fs \<le> j" "j \<le> ls" "t ! j = Some a" for j a
  proof -
    have "Some a \<notin> (!) t ` set [Suc ls..<n]"
    proof
      assume "Some a \<in> (!) t ` set [Suc ls..<n]"
      then obtain i where i: "Suc ls \<le> i" "i < n" "t ! i = Some a" by auto
      with that n have "t ! i = t ! j" "i < length t" "j < length t" "i \<noteq> j"
        by (simp_all add: n_def)
      with dist show False by (simp add: nth_eq_iff_index_eq)
    qed
    moreover from that n have jn: "j < n" by simp
    from live [OF jn] that have "a < length h1" by (simp add: h1)
    ultimately have "h2 ! a = h1 ! a" using h2 by simp
    with untouched1 [OF that(1) jn that(3)] show ?thesis by simp
  qed
  \<comment> \<open>the last loop\<close>
  define filled where "filled = fst (fill linked h2)"
  define h3 where "h3 = snd (fill linked h2)"
  have valid2: "valid_block h2 p" if "p \<in> set linked" "p \<noteq> None" for p
  proof -
    from that linked_set kept obtain j where j: "fs \<le> j" "j \<le> ls" "p = t ! j" by blast
    with n have jn: "j < n" by simp
    then have "t ! j \<in> set t" by (simp add: n_def)
    with valid have "valid_block h (t ! j)" by blast
    then obtain a b where ab: "t ! j = Some a" "a < length h" "h ! a = Some b" "length b = initial_size"
      by (rule valid_blockE)
    with untouched [OF j(1,2) ab(1)] h1 h2 have "valid_block h2 (Some a)"
      by (intro valid_blockI [of _ _ b]) simp_all
    with ab j show ?thesis by simp
  qed
  have "filter (\<lambda>p. p \<noteq> None) linked = filter (\<lambda>p. p \<noteq> None) (take (Suc ls - fs) (drop fs t))"
    by (simp add: linked_def)
  moreover have "distinct (take (Suc ls - fs) (drop fs t))"
    using dist by simp
  ultimately have "distinct (filter (\<lambda>p. p \<noteq> None) linked)"
    by simp
  with valid2 have tab: "distinct filled" "\<forall>q \<in> set filled. valid_block h3 q"
    using fill_table [of linked h2] by (auto simp: filled_def h3_def)
  have flen: "length filled = 2 * n"
    by (simp add: filled_def fill_length linked_len)
  have keep: "filled ! (j + sh) = t ! j \<and> (\<forall>a. t ! j = Some a \<longrightarrow> h3 ! a = h ! a)"
    if "fs \<le> j \<and> j \<le> ls" for j
  proof -
    from that n have jn: "j < n" by simp
    from live [OF jn] obtain a where a: "t ! j = Some a" "a < length h" by blast
    have "filled ! (j + sh) = linked ! (j + sh)"
      unfolding filled_def using that n a linked_nth [of j]
      by (intro fill_keeps) (simp_all add: linked_len)
    moreover obtain m where "h3 = h2 @ replicate m (Some (replicate initial_size None))"
      unfolding h3_def using fill_store by blast
    then have "h3 ! a = h2 ! a" using a h1 h2 by (simp add: nth_append)
    ultimately show ?thesis
      using that a linked_nth [of j] untouched [of j a] by simp
  qed
  have fl: "fill linked h2 = (filled, h3)"
    by (simp add: filled_def h3_def)
  have cap: "size_mul (2 * n) initial_size = 2 * n * initial_size"
    using n by (simp add: size_mul_small initial_size_def)
  have "resize d = Inr (d\<lparr> pivot := length t - 1,
                              first_storage := fs + sh,
                              last_storage := ls + sh,
                              external_storage := filled,
                              external_capacity := 2 * length t * initial_size,
                              heap := h3 \<rparr>)"
    unfolding resize_def Let_def
    apply (fold t_def h_def fs_def ls_def)
    apply (fold n_def)
    by (simp only: new_size new_pivot up lo st st' ls1 relinked h1(1) h2(1) and_then_simps
        fl split_conv flen cap)
  with flen tab keep show ?thesis by (auto simp: n_def)
qed

section \<open>Slots under the modifiers\<close>

lemma pos_split:
  "s < 64 \<Longrightarrow> (p = j * 64 + s) = (p div 64 = j \<and> p mod 64 = (s::nat))"
proof
  assume "s < 64" "p = j * 64 + s"
  then show "p div 64 = j \<and> p mod 64 = s" by simp
next
  assume "s < 64" "p div 64 = j \<and> p mod 64 = s"
  then show "p = j * 64 + s" using div_mult_mod_eq [of p 64] by simp
qed

lemma cell_at_valid:
  assumes "table_ok t h" "p div initial_size < length t"
  shows "\<exists>a b. t ! (p div initial_size) = Some a \<and> a < length h \<and> h ! a = Some b \<and>
           length b = initial_size \<and> cell_at t h p = Inr (b ! (p mod initial_size))"
proof -
  from assms have "valid_block h (t ! (p div initial_size))"
    by (simp add: table_ok_def)
  then obtain a b where "t ! (p div initial_size) = Some a" "a < length h" "h ! a = Some b"
      "length b = initial_size"
    by (rule valid_blockE)
  with assms show ?thesis
    by (simp add: cell_at_def vec_at_def load_def initial_size_def)
qed

lemma cell_store:
  assumes ok: "table_ok t h" and j: "j < length t" and s: "s < initial_size"
  shows "\<exists>h'. store h (t ! j) s v = Inr h' \<and> table_ok t h' \<and>
           (\<forall>p. p div initial_size < length t \<longrightarrow>
              cell_at t h' p = (if p = j * initial_size + s then Inr (Some v) else cell_at t h p))"
proof -
  from ok j have "valid_block h (t ! j)" by (simp add: table_ok_def)
  then obtain a b where a: "t ! j = Some a" "a < length h" "h ! a = Some b" "length b = initial_size"
    by (rule valid_blockE)
  define h' where "h' = h[a := Some (b[s := Some v])]"
  have st: "store h (t ! j) s v = Inr h'"
    using a s by (simp add: store_def h'_def)
  have ok': "table_ok t h'"
    unfolding table_ok_def
  proof (intro conjI ballI)
    show "distinct t" using ok by (simp add: table_ok_def)
  next
    fix q assume "q \<in> set t"
    with ok have "valid_block h q" by (simp add: table_ok_def)
    then obtain a' b' where q: "q = Some a'" "a' < length h" "h ! a' = Some b'" "length b' = initial_size"
      by (rule valid_blockE)
    show "valid_block h' q"
    proof (cases "a' = a")
      case True
      with q a show ?thesis by (simp add: valid_block_def h'_def)
    next
      case False
      with q a show ?thesis by (simp add: valid_block_def h'_def)
    qed
  qed
  have cells: "cell_at t h' p = (if p = j * initial_size + s then Inr (Some v) else cell_at t h p)"
    if p: "p div initial_size < length t" for p
  proof -
    from cell_at_valid [OF ok p] obtain a' b' where
      q: "t ! (p div initial_size) = Some a'" "a' < length h" "h ! a' = Some b'"
         "length b' = initial_size" "cell_at t h p = Inr (b' ! (p mod initial_size))"
      by blast
    show ?thesis
    proof (cases "p div initial_size = j")
      case True
      with q a have [simp]: "a' = a" "b' = b" by simp_all
      have "p = j * initial_size + s \<longleftrightarrow> p mod initial_size = s"
        using True s by (simp add: initial_size_def pos_split)
      moreover have "cell_at t h' p = Inr (b[s := Some v] ! (p mod initial_size))"
        using p q a by (simp add: cell_at_def vec_at_def load_def h'_def initial_size_def)
      ultimately show ?thesis using q a by (simp add: initial_size_def nth_list_update)
    next
      case False
      from ok have "distinct t" by (simp add: table_ok_def)
      with False p j have "t ! (p div initial_size) \<noteq> t ! j"
        by (simp add: nth_eq_iff_index_eq)
      with q a have "a' \<noteq> a" by auto
      moreover have "p \<noteq> j * initial_size + s"
        using False s by (simp add: initial_size_def pos_split)
      ultimately show ?thesis
        using p q by (simp add: cell_at_def vec_at_def load_def h'_def)
    qed
  qed
  from st ok' cells show ?thesis by blast
qed

lemma cell_resize:
  assumes ok: "table_ok t h" and ok': "table_ok t' h'"
    and len: "length t' = 2 * length t"
    and keep: "\<forall>j. fs \<le> j \<and> j \<le> ls \<longrightarrow>
                t' ! (j + sh) = t ! j \<and> (\<forall>a. t ! j = Some a \<longrightarrow> h' ! a = h ! a)"
    and p: "fs \<le> p div initial_size" "p div initial_size \<le> ls" "ls < length t" "sh \<le> length t"
  shows "cell_at t' h' (p + sh * initial_size) = cell_at t h p"
proof -
  have d: "(p + sh * initial_size) div initial_size = p div initial_size + sh"
    and m: "(p + sh * initial_size) mod initial_size = p mod initial_size"
    by (simp_all add: initial_size_def)
  from p have "p div initial_size < length t" by simp
  from cell_at_valid [OF ok this] obtain a b where
    q: "t ! (p div initial_size) = Some a" "a < length h" "h ! a = Some b"
       "length b = initial_size" "cell_at t h p = Inr (b ! (p mod initial_size))"
    by blast
  from keep p q have k: "t' ! (p div initial_size + sh) = Some a" "h' ! a = h ! a"
    by simp_all
  have "(p + sh * initial_size) div initial_size < length t'"
    using p len by (simp add: d)
  from cell_at_valid [OF ok' this] k q show ?thesis
    by (simp add: d m)
qed

section \<open>Every call keeps the invariant\<close>

lemma deque_inv_facts:
  assumes "deque_inv d xs k"
  shows "table_ok (external_storage d) (heap d)"
    and "2 * (pivot d + 1) = length (external_storage d)"
    and "current_first d < 64" and "current_last d < 64"
    and "last_storage d < length (external_storage d)"
    and "external_storage_size d = length xs"
    and "first_storage d * 64 + current_first d + 1 + length xs = last_storage d * 64 + current_last d"
    and "\<And>i. i < length xs \<Longrightarrow>
           cell_at (external_storage d) (heap d) (first_storage d * 64 + current_first d + 1 + i) = Inr (Some (xs ! i))"
    and "16 * length (external_storage d) \<le> k + 35"
    and "32 * length (external_storage d) \<le> first_storage d * 64 + current_first d + k + 34"
    and "last_storage d * 64 + current_last d \<le> 32 * length (external_storage d) + k + 34"
  using assms
  by (simp_all add: deque_inv_def Let_def front_pos_def back_pos_def initial_size_def)

lemma deque_invI:
  assumes "table_ok (external_storage d) (heap d)"
    and "2 * (pivot d + 1) = length (external_storage d)"
    and "current_first d < 64" and "current_last d < 64"
    and "last_storage d < length (external_storage d)"
    and "external_storage_size d = length xs"
    and "first_storage d * 64 + current_first d + 1 + length xs = last_storage d * 64 + current_last d"
    and "\<And>i. i < length xs \<Longrightarrow>
           cell_at (external_storage d) (heap d) (first_storage d * 64 + current_first d + 1 + i) = Inr (Some (xs ! i))"
    and "16 * length (external_storage d) \<le> k + 35"
    and "32 * length (external_storage d) \<le> first_storage d * 64 + current_first d + k + 34"
    and "last_storage d * 64 + current_last d \<le> 32 * length (external_storage d) + k + 34"
  shows "deque_inv d xs k"
  using assms
  by (simp add: deque_inv_def Let_def front_pos_def back_pos_def initial_size_def)

lemma push_back_inv:
  fixes d :: "'a Deque"
  assumes inv: "deque_inv d xs k" and k: "k < 2 ^ 32"
  shows "\<exists>d'. push_back v d = Inr d' \<and> deque_inv d' (xs @ [v]) (Suc k)"
proof -
  define t where "t = external_storage d"
  define h where "h = heap d"
  define n where "n = length t"
  define fs where "fs = first_storage d"
  define ls where "ls = last_storage d"
  define cf where "cf = current_first d"
  define cl where "cl = current_last d"
  note defs = t_def h_def n_def fs_def ls_def cf_def cl_def
  note I = deque_inv_facts [OF inv, folded defs]
  note J = I(1-7,9-11)
  have n: "n < 2 ^ 29" using I(9) k by simp
  have pos: "fs * 64 + cf + 1 + length xs = ls * 64 + cl" by (rule I(7))
  have fl: "fs \<le> ls" using pos I(3,4) by arith
  have lt: "ls < length t" using I(5) by (simp add: n_def)
  have "cl < initial_size" using I(4) by (simp add: initial_size_def)
  from cell_store [OF I(1) lt this, of v]
  obtain h' where h': "store h (t ! ls) cl v = Inr h'" "table_ok t h'"
    and upd: "\<And>p. p div 64 < n \<Longrightarrow>
                cell_at t h' p = (if p = ls * 64 + cl then Inr (Some v) else cell_at t h p)"
    by (auto simp: initial_size_def n_def)
  have inside: "(fs * 64 + cf + 1 + i) div 64 \<le> ls" "fs \<le> (fs * 64 + cf + 1 + i) div 64"
    if "i \<le> length xs" for i
    using that pos I(4) by simp_all
  have cells: "cell_at t h' (fs * 64 + cf + 1 + i) = Inr (Some ((xs @ [v]) ! i))"
    if "i < Suc (length xs)" for i
  proof -
    from that have "(fs * 64 + cf + 1 + i) div 64 < n"
      using inside(1) [of i] I(5) by simp
    note u = upd [OF this]
    show ?thesis
    proof (cases "i = length xs")
      case True
      with u pos show ?thesis by simp
    next
      case False
      with that have i: "i < length xs" by simp
      with u pos I(8) [OF i] show ?thesis by (simp add: nth_append)
    qed
  qed
  have f1: "vec_at t ls = Inr (t ! ls)" using lt by (simp add: vec_at_def)
  have f3: "to_int cl = int cl" using I(4) by (simp add: to_int_small)
  have f4: "size_add (length xs) (Suc 0) = Suc (length xs)"
    using pos I(4,5) n by (simp add: size_add_small)
  have f5: "size_t (int cl + 1) = cl + 1"
    using I(4) by (simp add: size_t_small nat_add_distrib)
  show ?thesis
  proof (cases "cl + 1 < 64")
    case True
    define d' where "d' = d\<lparr>heap := h', external_storage_size := Suc (length xs), current_last := cl + 1\<rparr>"
    have "push_back v d = Inr d'"
      using True
      by (simp add: push_back_def Let_def d'_def f1 h' f3 f4 f5 I(6) initial_size_def flip: defs)
    moreover have "deque_inv d' (xs @ [v]) (Suc k)"
    proof (intro deque_invI)
      fix i assume "i < length (xs @ [v])"
      with cells [of i]
      show "cell_at (external_storage d') (heap d')
              (first_storage d' * 64 + current_first d' + 1 + i) = Inr (Some ((xs @ [v]) ! i))"
        by (simp add: d'_def flip: defs)
    qed (use J True h'(2) in \<open>simp_all add: d'_def flip: defs\<close>)
    ultimately show ?thesis by blast
  next
    case False
    with I(4) have cl63: "cl = 63" by simp
    define d2 where "d2 = d\<lparr>heap := h', external_storage_size := Suc (length xs), current_last := 0\<rparr>"
    have step: "push_back v d =
        and_then (if to_int ls + 1 \<ge> to_int n then resize d2 else Inr d2)
          (\<lambda>d. Inr (d\<lparr>last_storage := size_add (last_storage d) 1\<rparr>))"
      using False
      by (simp add: push_back_def Let_def d2_def f1 h' f3 f4 f5 I(6) initial_size_def flip: defs)
    have ti: "to_int ls = int ls" "to_int n = int n"
      using n I(5) by (simp_all add: to_int_small)
    show ?thesis
    proof (cases "ls + 1 < n")
      case True
      define d' where "d' = d2\<lparr>last_storage := ls + 1\<rparr>"
      have "push_back v d = Inr d'"
        using True n by (simp add: step ti d'_def d2_def size_add_small flip: defs)
      moreover have "deque_inv d' (xs @ [v]) (Suc k)"
      proof (intro deque_invI)
        fix i assume "i < length (xs @ [v])"
        with cells [of i]
        show "cell_at (external_storage d') (heap d')
              (first_storage d' * 64 + current_first d' + 1 + i) = Inr (Some ((xs @ [v]) ! i))"
          by (simp add: d'_def d2_def flip: defs)
      qed (use J True cl63 h'(2) in \<open>simp_all add: d'_def d2_def flip: defs\<close>)
      ultimately show ?thesis by blast
    next
      case False
      with I(5) have lsn: "ls + 1 = n" by simp
      define sh where "sh = pivot d + 1"
      have sh: "2 * sh = n" using I(2) by (simp add: sh_def)
      have p1: "distinct (external_storage d2)"
        and p2: "\<forall>p \<in> set (external_storage d2). valid_block (heap d2) p"
        using h'(2) by (simp_all add: d2_def table_ok_def flip: defs)
      have p3: "2 * (pivot d2 + 1) = length (external_storage d2)"
        and p4: "first_storage d2 \<le> last_storage d2"
        and p5: "last_storage d2 < length (external_storage d2)"
        and p6: "length (external_storage d2) < 2 ^ 30"
        using I(2,5) fl n by (simp_all add: d2_def flip: defs)
      from resize_result [OF p1 p2 p3 p4 p5 p6]
      obtain filled h3 where R: "resize d2 = Inr (d2\<lparr> pivot := length (external_storage d2) - 1,
                              first_storage := first_storage d2 + (pivot d2 + 1),
                              last_storage := last_storage d2 + (pivot d2 + 1),
                              external_storage := filled,
                              external_capacity := 2 * length (external_storage d2) * initial_size,
                              heap := h3 \<rparr>) \<and>
           length filled = 2 * length (external_storage d2) \<and> distinct filled \<and>
           (\<forall>q \<in> set filled. valid_block h3 q) \<and>
           (\<forall>j. first_storage d2 \<le> j \<and> j \<le> last_storage d2 \<longrightarrow>
                filled ! (j + (pivot d2 + 1)) = external_storage d2 ! j \<and>
                (\<forall>a. external_storage d2 ! j = Some a \<longrightarrow> h3 ! a = heap d2 ! a))"
        by blast
      have r: "resize d2 = Inr (d2\<lparr> pivot := n - 1,
                              first_storage := fs + sh,
                              last_storage := ls + sh,
                              external_storage := filled,
                              external_capacity := 2 * n * initial_size,
                              heap := h3 \<rparr>)"
        using R by (simp add: d2_def sh_def flip: defs)
      have fl3: "length filled = 2 * n" "table_ok filled h3"
        using R by (simp_all add: d2_def table_ok_def flip: defs)
      have keep: "\<forall>j. fs \<le> j \<and> j \<le> ls \<longrightarrow>
                filled ! (j + sh) = t ! j \<and> (\<forall>a. t ! j = Some a \<longrightarrow> h3 ! a = h' ! a)"
        using R by (simp add: d2_def sh_def flip: defs)
      define d' where "d' = d2\<lparr> pivot := n - 1,
                              first_storage := fs + sh,
                              last_storage := ls + sh + 1,
                              external_storage := filled,
                              external_capacity := 2 * n * initial_size,
                              heap := h3 \<rparr>"
      have "push_back v d = Inr d'"
        using lsn n sh by (simp add: step ti r d'_def size_add_small)
      moreover have "deque_inv d' (xs @ [v]) (Suc k)"
      proof (intro deque_invI)
        fix i assume i: "i < length (xs @ [v])"
        have "cell_at filled h3 ((fs * 64 + cf + 1 + i) + sh * initial_size) = cell_at t h' (fs * 64 + cf + 1 + i)"
          using h'(2) fl3 keep inside [of i] i I(5) sh
          by (intro cell_resize [where fs = fs and ls = ls]) (simp_all add: n_def initial_size_def)
        with cells [of i] i
        show "cell_at (external_storage d') (heap d')
              (first_storage d' * 64 + current_first d' + 1 + i) = Inr (Some ((xs @ [v]) ! i))"
          by (simp add: d'_def d2_def initial_size_def algebra_simps flip: defs)
      qed (use J lsn sh fl3 cl63 in \<open>simp_all add: d'_def d2_def flip: defs\<close>)
      ultimately show ?thesis by blast
    qed
  qed
qed

lemma deque_inv_mono: "deque_inv d xs k \<Longrightarrow> k \<le> k' \<Longrightarrow> deque_inv d xs k'"
  by (simp add: deque_inv_def Let_def)

lemma push_front_inv:
  fixes d :: "'a Deque"
  assumes inv: "deque_inv d xs k" and k: "k < 2 ^ 32"
  shows "\<exists>d'. push_front v d = Inr d' \<and> deque_inv d' (v # xs) (Suc k)"
proof -
  define t where "t = external_storage d"
  define h where "h = heap d"
  define n where "n = length t"
  define fs where "fs = first_storage d"
  define ls where "ls = last_storage d"
  define cf where "cf = current_first d"
  define cl where "cl = current_last d"
  note defs = t_def h_def n_def fs_def ls_def cf_def cl_def
  note I = deque_inv_facts [OF inv, folded defs]
  note J = I(1-7,9-11)
  have n: "n < 2 ^ 29" using I(9) k by simp
  have pos: "fs * 64 + cf + 1 + length xs = ls * 64 + cl" by (rule I(7))
  have fl: "fs \<le> ls" using pos I(3,4) by arith
  have lt: "fs < length t" using I(5) fl by (simp add: n_def)
  have "cf < initial_size" using I(3) by (simp add: initial_size_def)
  from cell_store [OF I(1) lt this, of v]
  obtain h' where h': "store h (t ! fs) cf v = Inr h'" "table_ok t h'"
    and upd: "\<And>p. p div 64 < n \<Longrightarrow>
                cell_at t h' p = (if p = fs * 64 + cf then Inr (Some v) else cell_at t h p)"
    by (auto simp: initial_size_def n_def)
  have inside: "(fs * 64 + cf + i) div 64 \<le> ls" "fs \<le> (fs * 64 + cf + i) div 64"
    if "i \<le> length xs" for i
    using that pos I(4) by simp_all
  have cells: "cell_at t h' (fs * 64 + cf + i) = Inr (Some ((v # xs) ! i))"
    if "i < Suc (length xs)" for i
  proof -
    from that have "(fs * 64 + cf + i) div 64 < n"
      using inside(1) [of i] I(5) by simp
    note u = upd [OF this]
    show ?thesis
    proof (cases i)
      case 0
      with u show ?thesis by simp
    next
      case (Suc j)
      with that have j: "j < length xs" by simp
      with u I(8) [OF j] Suc show ?thesis by simp
    qed
  qed
  have f1: "vec_at t fs = Inr (t ! fs)" using lt by (simp add: vec_at_def)
  have f3: "to_int cf = int cf" using I(3) by (simp add: to_int_small)
  have f4: "size_add (length xs) (Suc 0) = Suc (length xs)"
    using pos I(4,5) n by (simp add: size_add_small)
  show ?thesis
  proof (cases "0 < cf")
    case True
    define d' where "d' = d\<lparr>heap := h', external_storage_size := Suc (length xs), current_first := cf - 1\<rparr>"
    have f5: "size_t (int cf - 1) = cf - 1"
      using I(3) True by (simp add: size_t_small nat_diff_distrib)
    have "push_front v d = Inr d'"
      using True
      by (simp add: push_front_def Let_def d'_def f1 h' f3 f4 f5 I(6) initial_size_def flip: defs)
    moreover have "deque_inv d' (v # xs) (Suc k)"
    proof (intro deque_invI)
      fix i assume "i < length (v # xs)"
      with cells [of i] True
      show "cell_at (external_storage d') (heap d')
              (first_storage d' * 64 + current_first d' + 1 + i) = Inr (Some ((v # xs) ! i))"
        by (simp add: d'_def flip: defs)
    qed (use J True h'(2) in \<open>simp_all add: d'_def flip: defs\<close>)
    ultimately show ?thesis by blast
  next
    case False
    then have cf0: "cf = 0" by simp
    define d2 where "d2 = d\<lparr>heap := h', external_storage_size := Suc (length xs), current_first := 63\<rparr>"
    have f6: "size_sub 64 (Suc 0) = 63" by (simp add: size_sub_small)
    have step: "push_front v d =
        and_then (if to_int fs - 1 < 0 then resize d2 else Inr d2)
          (\<lambda>d. Inr (d\<lparr>first_storage := size_sub (first_storage d) 1\<rparr>))"
      using cf0
      by (simp add: push_front_def Let_def d2_def f1 h' [unfolded cf0] f3 [unfolded cf0] f4 f6 I(6)
          initial_size_def flip: defs)
    have ti: "to_int fs = int fs"
      using n lt by (simp add: to_int_small n_def)
    show ?thesis
    proof (cases "0 < fs")
      case True
      define d' where "d' = d2\<lparr>first_storage := fs - 1\<rparr>"
      have "push_front v d = Inr d'"
        using True n lt by (simp add: step ti d'_def d2_def size_sub_small n_def flip: defs)
      moreover have "deque_inv d' (v # xs) (Suc k)"
      proof (intro deque_invI)
        fix i assume "i < length (v # xs)"
        with cells [of i] True cf0
        show "cell_at (external_storage d') (heap d')
              (first_storage d' * 64 + current_first d' + 1 + i) = Inr (Some ((v # xs) ! i))"
          by (simp add: d'_def d2_def algebra_simps flip: defs)
      qed (use J True cf0 h'(2) in \<open>simp_all add: d'_def d2_def algebra_simps flip: defs\<close>)
      ultimately show ?thesis by blast
    next
      case False
      then have fs0: "fs = 0" by simp
      define sh where "sh = pivot d + 1"
      have sh: "2 * sh = n" "0 < sh" using I(2) by (simp_all add: sh_def)
      have p1: "distinct (external_storage d2)"
        and p2: "\<forall>p \<in> set (external_storage d2). valid_block (heap d2) p"
        using h'(2) by (simp_all add: d2_def table_ok_def flip: defs)
      have p3: "2 * (pivot d2 + 1) = length (external_storage d2)"
        and p4: "first_storage d2 \<le> last_storage d2"
        and p5: "last_storage d2 < length (external_storage d2)"
        and p6: "length (external_storage d2) < 2 ^ 30"
        using I(2,5) fl n by (simp_all add: d2_def flip: defs)
      from resize_result [OF p1 p2 p3 p4 p5 p6]
      obtain filled h3 where R: "resize d2 = Inr (d2\<lparr> pivot := length (external_storage d2) - 1,
                              first_storage := first_storage d2 + (pivot d2 + 1),
                              last_storage := last_storage d2 + (pivot d2 + 1),
                              external_storage := filled,
                              external_capacity := 2 * length (external_storage d2) * initial_size,
                              heap := h3 \<rparr>) \<and>
           length filled = 2 * length (external_storage d2) \<and> distinct filled \<and>
           (\<forall>q \<in> set filled. valid_block h3 q) \<and>
           (\<forall>j. first_storage d2 \<le> j \<and> j \<le> last_storage d2 \<longrightarrow>
                filled ! (j + (pivot d2 + 1)) = external_storage d2 ! j \<and>
                (\<forall>a. external_storage d2 ! j = Some a \<longrightarrow> h3 ! a = heap d2 ! a))"
        by blast
      have r: "resize d2 = Inr (d2\<lparr> pivot := n - 1,
                              first_storage := fs + sh,
                              last_storage := ls + sh,
                              external_storage := filled,
                              external_capacity := 2 * n * initial_size,
                              heap := h3 \<rparr>)"
        using R by (simp add: d2_def sh_def flip: defs)
      have fl3: "length filled = 2 * n" "table_ok filled h3"
        using R by (simp_all add: d2_def table_ok_def flip: defs)
      have keep: "\<forall>j. fs \<le> j \<and> j \<le> ls \<longrightarrow>
                filled ! (j + sh) = t ! j \<and> (\<forall>a. t ! j = Some a \<longrightarrow> h3 ! a = h' ! a)"
        using R by (simp add: d2_def sh_def flip: defs)
      define d' where "d' = d2\<lparr> pivot := n - 1,
                              first_storage := sh - 1,
                              last_storage := ls + sh,
                              external_storage := filled,
                              external_capacity := 2 * n * initial_size,
                              heap := h3 \<rparr>"
      have "push_front v d = Inr d'"
        using fs0 n sh by (simp add: step [unfolded fs0] ti [unfolded fs0] r d'_def size_sub_small)
      moreover have "deque_inv d' (v # xs) (Suc k)"
      proof (intro deque_invI)
        fix i assume i: "i < length (v # xs)"
        have "cell_at filled h3 ((fs * 64 + cf + i) + sh * initial_size) = cell_at t h' (fs * 64 + cf + i)"
          using h'(2) fl3 keep inside [of i] i I(5) sh
          by (intro cell_resize [where fs = fs and ls = ls]) (simp_all add: n_def initial_size_def)
        moreover have e: "first_storage d' * 64 + current_first d' + 1 + i =
            (fs * 64 + cf + i) + sh * initial_size"
          using sh fs0 cf0 by (simp add: d'_def d2_def initial_size_def algebra_simps)
        moreover have f: "external_storage d' = filled" "heap d' = h3"
          by (simp_all add: d'_def)
        ultimately
        show "cell_at (external_storage d') (heap d')
              (first_storage d' * 64 + current_first d' + 1 + i) = Inr (Some ((v # xs) ! i))"
          unfolding e f using cells [of i] i by simp
      next
        show "first_storage d' * 64 + current_first d' + 1 + length (v # xs) =
              last_storage d' * 64 + current_last d'"
          using J fs0 cf0 sh by (simp add: d'_def d2_def algebra_simps flip: defs)
      next
        show "32 * length (external_storage d') \<le> first_storage d' * 64 + current_first d' + Suc k + 34"
          using J fs0 cf0 sh fl3 by (simp add: d'_def d2_def algebra_simps flip: defs)
      qed (use J fs0 cf0 sh fl3 in \<open>simp_all add: d'_def d2_def flip: defs\<close>)
      ultimately show ?thesis by blast
    qed
  qed
qed

lemma pop_back_inv:
  fixes d :: "'a Deque"
  assumes inv: "deque_inv d xs k" and k: "k < 2 ^ 32"
  shows "deque_inv (pop_back d) (butlast xs) (Suc k)"
proof (cases "xs = []")
  case True
  with deque_inv_facts(6) [OF inv] have "pop_back d = d"
    by (simp add: pop_back_def empty_deque_def)
  with inv True show ?thesis by (simp add: deque_inv_mono)
next
  case False
  define t where "t = external_storage d"
  define h where "h = heap d"
  define n where "n = length t"
  define fs where "fs = first_storage d"
  define ls where "ls = last_storage d"
  define cf where "cf = current_first d"
  define cl where "cl = current_last d"
  note defs = t_def h_def n_def fs_def ls_def cf_def cl_def
  note I = deque_inv_facts [OF inv, folded defs]
  note J = I(1-7,9-11)
  have n: "n < 2 ^ 29" using I(9) k by simp
  from False have len: "0 < length xs" by simp
  from False obtain m where m: "length xs = Suc m" by (cases xs) auto
  have ne: "\<not> empty_deque d" using len I(6) by (simp add: empty_deque_def)
  have f3: "to_int cl = int cl" using I(4) by (simp add: to_int_small)
  have "length xs < 2 ^ 40" using I(4,5,7) n by simp
  moreover have "Suc 0 \<le> length xs" using False by (cases xs) simp_all
  ultimately have f4: "size_sub (length xs) (Suc 0) = length xs - 1"
    by (simp add: size_sub_small)
  have cells: "cell_at t h (fs * 64 + cf + 1 + i) = Inr (Some (butlast xs ! i))"
    if "i < length (butlast xs)" for i
    using that I(8) [of i] by (simp add: nth_butlast)
  show ?thesis
  proof (cases "0 < cl")
    case True
    define d' where "d' = d\<lparr>current_last := cl - 1, external_storage_size := length xs - 1\<rparr>"
    have f5: "size_t (int cl - 1) = cl - 1"
      using I(4) True by (simp add: size_t_small nat_diff_distrib)
    have "pop_back d = d'"
      using True ne
      by (simp add: pop_back_def Let_def d'_def f3 f4 f5 I(6) initial_size_def flip: defs)
    moreover have "deque_inv d' (butlast xs) (Suc k)"
    proof (intro deque_invI)
      fix i assume "i < length (butlast xs)"
      with cells [of i]
      show "cell_at (external_storage d') (heap d')
              (first_storage d' * 64 + current_first d' + 1 + i) = Inr (Some (butlast xs ! i))"
        by (simp add: d'_def flip: defs)
    qed (use J True m in \<open>simp_all add: d'_def flip: defs\<close>)
    ultimately show ?thesis by simp
  next
    case False
    then have cl0: "cl = 0" by simp
    have ls: "0 < ls" using I(7) len cl0 by (cases ls) simp_all
    define d' where "d' = d\<lparr>current_last := 63, last_storage := ls - 1,
                              external_storage_size := length xs - 1\<rparr>"
    have f6: "size_sub 64 (Suc 0) = 63" by (simp add: size_sub_small)
    have f7: "size_sub ls (Suc 0) = ls - 1"
      using ls I(5) n by (simp add: size_sub_small)
    have "pop_back d = d'"
      using cl0 ne
      by (simp add: pop_back_def Let_def d'_def f3 [unfolded cl0] f4 f6 f7 I(6) initial_size_def
          flip: defs)
    moreover have "deque_inv d' (butlast xs) (Suc k)"
    proof (intro deque_invI)
      fix i assume "i < length (butlast xs)"
      with cells [of i]
      show "cell_at (external_storage d') (heap d')
              (first_storage d' * 64 + current_first d' + 1 + i) = Inr (Some (butlast xs ! i))"
        by (simp add: d'_def flip: defs)
    qed (use J cl0 ls m in \<open>simp_all add: d'_def algebra_simps flip: defs\<close>)
    ultimately show ?thesis by simp
  qed
qed

lemma pop_front_inv:
  fixes d :: "'a Deque"
  assumes inv: "deque_inv d xs k" and k: "k < 2 ^ 32"
  shows "deque_inv (pop_front d) (tl xs) (Suc k)"
proof (cases "xs = []")
  case True
  with deque_inv_facts(6) [OF inv] have "pop_front d = d"
    by (simp add: pop_front_def empty_deque_def)
  with inv True show ?thesis by (simp add: deque_inv_mono)
next
  case False
  define t where "t = external_storage d"
  define h where "h = heap d"
  define n where "n = length t"
  define fs where "fs = first_storage d"
  define ls where "ls = last_storage d"
  define cf where "cf = current_first d"
  define cl where "cl = current_last d"
  note defs = t_def h_def n_def fs_def ls_def cf_def cl_def
  note I = deque_inv_facts [OF inv, folded defs]
  note J = I(1-7,9-11)
  have n: "n < 2 ^ 29" using I(9) k by simp
  from False have len: "0 < length xs" by simp
  from False obtain m where m: "length xs = Suc m" by (cases xs) auto
  have ne: "\<not> empty_deque d" using len I(6) by (simp add: empty_deque_def)
  have f3: "to_int cf = int cf" using I(3) by (simp add: to_int_small)
  have "length xs < 2 ^ 40" using I(4,5,7) n by simp
  moreover have "Suc 0 \<le> length xs" using False by (cases xs) simp_all
  ultimately have f4: "size_sub (length xs) (Suc 0) = length xs - 1"
    by (simp add: size_sub_small)
  have f5: "size_t (int cf + 1) = cf + 1"
    using I(3) by (simp add: size_t_small nat_add_distrib)
  have cells: "cell_at t h (fs * 64 + cf + 1 + Suc i) = Inr (Some (tl xs ! i))"
    if "i < length (tl xs)" for i
    using that I(8) [of "Suc i"] by (simp add: nth_tl)
  show ?thesis
  proof (cases "cf + 1 < 64")
    case True
    define d' where "d' = d\<lparr>current_first := cf + 1, external_storage_size := length xs - 1\<rparr>"
    have "pop_front d = d'"
      using True ne
      by (simp add: pop_front_def Let_def d'_def f3 f4 f5 I(6) initial_size_def flip: defs)
    moreover have "deque_inv d' (tl xs) (Suc k)"
    proof (intro deque_invI)
      fix i assume "i < length (tl xs)"
      with cells [of i]
      show "cell_at (external_storage d') (heap d')
              (first_storage d' * 64 + current_first d' + 1 + i) = Inr (Some (tl xs ! i))"
        by (simp add: d'_def flip: defs)
    qed (use J True m in \<open>simp_all add: d'_def flip: defs\<close>)
    ultimately show ?thesis by simp
  next
    case False
    with I(3) have cf63: "cf = 63" by simp
    have fl: "fs < ls" using I(4,7) len cf63 by arith
    define d' where "d' = d\<lparr>current_first := 0, first_storage := fs + 1,
                              external_storage_size := length xs - 1\<rparr>"
    have f7: "size_add fs (Suc 0) = fs + 1"
      using fl I(5) n by (simp add: size_add_small)
    have "pop_front d = d'"
      using False ne
      by (simp add: pop_front_def Let_def d'_def f3 f4 f5 f7 I(6) initial_size_def flip: defs)
    moreover have "deque_inv d' (tl xs) (Suc k)"
    proof (intro deque_invI)
      fix i assume "i < length (tl xs)"
      with cells [of i] cf63
      show "cell_at (external_storage d') (heap d')
              (first_storage d' * 64 + current_first d' + 1 + i) = Inr (Some (tl xs ! i))"
        by (simp add: d'_def algebra_simps flip: defs)
    qed (use J cf63 m in \<open>simp_all add: d'_def algebra_simps flip: defs\<close>)
    ultimately show ?thesis by simp
  qed
qed

lemma index_op_inv:
  fixes d :: "'a Deque"
  assumes inv: "deque_inv d xs k" and k: "k < 2 ^ 32" and i: "i < length xs"
  shows "index_op d i = Inr (Some (xs ! i))"
proof -
  note I = deque_inv_facts [OF inv]
  have n: "length (external_storage d) < 2 ^ 29" using I(9) k by simp
  have b: "i + 1 + current_first d < 2 ^ 40"
    using I(4,5,7) n i by simp
  have a1: "size_add i (Suc 0) = i + 1" using b by (simp add: size_add_small)
  have a2: "size_add (i + 1) (current_first d) = i + 1 + current_first d"
    using b by (simp add: size_add_small)
  have a3: "size_add 0 ((i + 1 + current_first d) div 64) = (i + 1 + current_first d) div 64"
    using b by (simp add: size_add_small)
  have split: "first_storage d * 64 + current_first d + 1 + i =
      (i + 1 + current_first d) + first_storage d * 64"
    by simp
  have a5: "(first_storage d * 64 + current_first d + 1 + i) mod 64 = (i + 1 + current_first d) mod 64"
    unfolding split by (rule mod_mult_self1)
  have a6: "(first_storage d * 64 + current_first d + 1 + i) div 64 =
      first_storage d + (i + 1 + current_first d) div 64"
    unfolding split by (rule div_mult_self1) simp
  have a4: "size_add (first_storage d) ((i + 1 + current_first d) div 64) =
      first_storage d + (i + 1 + current_first d) div 64"
  proof -
    have "first_storage d \<le> last_storage d" using I(3,4,7) by arith
    with I(5) n have "first_storage d + (i + 1 + current_first d) div 64 < 2 ^ 64" using b by simp
    then show ?thesis by (simp add: size_add_small)
  qed
  have "index_op d i = and_then (vec_at (external_storage d) (first_storage d + (i + 1 + current_first d) div 64))
           (\<lambda>p. load (heap d) p ((i + 1 + current_first d) mod 64))"
    using I(3)
    by (simp add: index_op_def Let_def initial_size_def a1 a2 [simplified] a3 [simplified] a4 [simplified])
  also have "\<dots> = cell_at (external_storage d) (heap d) (first_storage d * 64 + current_first d + 1 + i)"
    by (simp only: cell_at_def initial_size_def a5 a6)
  finally show ?thesis using I(8) [OF i] by simp
qed

lemma Deque_default_inv: "deque_inv (Deque_default h) [] 0"
  by (intro deque_invI)
     (simp_all add: Deque_default_def member_init_def make_storage_def initial_size_def
        table_ok_def valid_block_def nth_append size_mul_def)

section \<open>Runs of calls\<close>

lemma apply_call_inv:
  assumes "deque_inv d xs k" "k < 2 ^ 32"
  shows "\<exists>d'. apply_call c d = Inr d' \<and> deque_inv d' (logical_call c xs) (Suc k)"
proof (cases c)
  case (PushFront v)
  with push_front_inv [OF assms, of v] show ?thesis by simp
next
  case (PushBack v)
  with push_back_inv [OF assms, of v] show ?thesis by simp
next
  case PopFront
  with pop_front_inv [OF assms] show ?thesis by simp
next
  case PopBack
  with pop_back_inv [OF assms] show ?thesis by simp
qed

lemma run_inv:
  "deque_inv d xs k \<Longrightarrow> k + length cs \<le> 2 ^ 32 \<Longrightarrow>
   \<exists>d'. run cs d = Inr d' \<and> deque_inv d' (fold logical_call cs xs) (k + length cs)"
proof (induction cs arbitrary: d xs k)
  case Nil
  then show ?case by simp
next
  case (Cons c cs)
  from Cons.prems have "k < 2 ^ 32" by simp
  from apply_call_inv [OF Cons.prems(1) this, of c]
  obtain d1 where d1: "apply_call c d = Inr d1" "deque_inv d1 (logical_call c xs) (Suc k)"
    by blast
  from Cons.prems have "Suc k + length cs \<le> 2 ^ 32" by simp
  from Cons.IH [OF d1(2) this] d1(1) show ?case by simp
qed

lemma run_append:
  "run (cs @ cs') d = and_then (run cs d) (run cs')"
proof (induction cs arbitrary: d)
  case Nil
  show ?case by simp
next
  case (Cons c cs)
  then show ?case by (cases "apply_call c d") simp_all
qed

lemma run_default:
  assumes "length cs \<le> 2 ^ 32"
  shows "\<exists>d. run cs (Deque_default h) = Inr d \<and> deque_inv d (logical cs) (length cs)"
  using run_inv [OF Deque_default_inv, of cs h] assms by (simp add: logical_def)

lemma back_elem_inv:
  assumes "deque_inv d xs k" "k < 2 ^ 32" "xs \<noteq> []"
  shows "back_elem d = Inr (Some (last xs))"
proof -
  note I = deque_inv_facts [OF assms(1)]
  from assms(3) obtain m where m: "length xs = Suc m" by (cases xs) auto
  have "length xs < 2 ^ 64" using I(4,5,7,9) assms(2) by simp
  with m have "size_sub (length xs) 1 = m" by (simp add: size_sub_small)
  moreover from m have "index_op d m = Inr (Some (xs ! m))"
    by (intro index_op_inv [OF assms(1,2)]) simp
  moreover have "xs ! m = last xs" using m assms(3) by (simp add: last_conv_nth)
  ultimately show ?thesis using m I(6) by (simp add: back_elem_def empty_deque_def)
qed

lemma front_inv:
  assumes "deque_inv d xs k" "k < 2 ^ 32" "xs \<noteq> []"
  shows "front d = Inr (Some (hd xs))"
proof -
  note I = deque_inv_facts [OF assms(1)]
  from assms(3) have "index_op d 0 = Inr (Some (xs ! 0))"
    by (intro index_op_inv [OF assms(1,2)]) simp
  with assms(3) I(6) show ?thesis by (simp add: front_def empty_deque_def hd_conv_nth)
qed

lemma drain_back_inv:
  "deque_inv d (xs @ ys) k \<Longrightarrow> k + length ys \<le> 2 ^ 32 \<Longrightarrow>
   drain_back (length ys) d = map (\<lambda>v. Inr (Some v)) (rev ys)"
proof (induction ys arbitrary: d k rule: rev_induct)
  case Nil
  show ?case by simp
next
  case (snoc y ys)
  from snoc.prems have k: "k < 2 ^ 32" by simp
  have b: "back_elem d = Inr (Some y)"
    using back_elem_inv [OF snoc.prems(1) k] by simp
  have "deque_inv (pop_back d) (butlast (xs @ ys @ [y])) (Suc k)"
    by (rule pop_back_inv [OF snoc.prems(1) k])
  then have "deque_inv (pop_back d) (xs @ ys) (Suc k)"
    by (simp add: butlast_append)
  moreover from snoc.prems have "Suc k + length ys \<le> 2 ^ 32" by simp
  ultimately have "drain_back (length ys) (pop_back d) = map (\<lambda>v. Inr (Some v)) (rev ys)"
    by (rule snoc.IH)
  with b show ?case by simp
qed

lemma logical_push_backs: "fold logical_call (map PushBack vs) xs = xs @ vs"
  by (induction vs arbitrary: xs) simp_all

lemma logical_pop_fronts: "fold logical_call (replicate m PopFront) xs = drop m xs"
  by (induction m arbitrary: xs) (simp_all add: drop_Suc)

lemmas eval_defs =
  Deque_default_def member_init_def make_storage_def initial_size_def
  size_add_def size_sub_def size_mul_def size_t_def to_int_def
  vec_at_def load_def store_def

section \<open>Indexed access\<close>

text \<open>
  C1. In every state reached from \<open>Deque()\<close> by a run of fewer than \<open>2 ^ 32\<close> calls
  of \<open>push_front\<close>, \<open>push_back\<close>, \<open>pop_front\<close> and \<open>pop_back\<close>, the run does not
  fail, \<open>size()\<close> is the length of the sequence the calls describe, and
  \<open>operator[](i)\<close> designates, for every \<open>i\<close> below \<open>size()\<close>, a slot holding the
  \<open>i\<close>-th value of that sequence: the value last pushed there, whatever was pushed or
  popped at the other end, however often the table was resized, and never a value that a
  pop left behind in a block. The bound on the number of calls keeps the table below the
  range of \<open>int\<close>, in which \<open>push_back\<close> and \<open>resize\<close> compute.
\<close>

theorem index_returns_logical_value:
  assumes "length cs < 2 ^ 32"
  shows "\<exists>d. run cs (Deque_default h) = Inr d \<and> get_size d = length (logical cs) \<and>
           (\<forall>i < length (logical cs). index_op d i = Inr (Some (logical cs ! i)))"
proof -
  from assms have "length cs \<le> 2 ^ 32" by simp
  from run_default [OF this, of h]
  obtain d where d: "run cs (Deque_default h) = Inr d" "deque_inv d (logical cs) (length cs)"
    by blast
  have "get_size d = length (logical cs)"
    using deque_inv_facts(6) [OF d(2)] by (simp add: get_size_def)
  moreover have "\<forall>i < length (logical cs). index_op d i = Inr (Some (logical cs ! i))"
    using index_op_inv [OF d(2) assms] by blast
  ultimately show ?thesis using d(1) by blast
qed

theorem index_returns_logical_value_witness:
  "length [PushBack (1::nat), PushFront 2, PopBack, PushBack 3, PushFront 4, PopFront] < 2 ^ 32 \<and>
   (\<exists>d. run [PushBack (1::nat), PushFront 2, PopBack, PushBack 3, PushFront 4, PopFront]
           (Deque_default []) = Inr d \<and>
        get_size d = 2 \<and> index_op d 0 = Inr (Some 2) \<and> index_op d 1 = Inr (Some 3))"
proof -
  define cs where "cs = [PushBack (1::nat), PushFront 2, PopBack, PushBack 3, PushFront 4, PopFront]"
  have l: "length cs < 2 ^ 32" by (simp add: cs_def)
  have lg: "logical cs = [2, 3]" by (simp add: cs_def logical_def)
  from index_returns_logical_value [OF l, of "[]"]
  obtain d where d: "run cs (Deque_default []) = Inr d" "get_size d = length (logical cs)"
      "\<forall>i < length (logical cs). index_op d i = Inr (Some (logical cs ! i))"
    by blast
  from d(3) have "index_op d 0 = Inr (Some 2)" "index_op d 1 = Inr (Some 3)"
    by (simp_all add: lg)
  with d(1,2) l show ?thesis unfolding cs_def [symmetric] by (auto simp: lg)
qed

section \<open>Construction from a buffer\<close>

text \<open>
  C2. The constructor from a buffer does not allocate the two initial blocks: it starts
  from the default member initialisers, with an empty block table, and its first
  \<open>push_back\<close> indexes that empty table. For every buffer of at least one element the
  construction ends in an invalid access, so no container with
  \<open>container[i] == source[i]\<close> is produced.
\<close>

theorem Deque_from_buffer_fails: "Deque_from (x # xs) h = Inl InvalidAccess"
proof -
  have "fold (\<lambda>x r. and_then r (push_back x)) ys (Inl e) = Inl e" for ys :: "'a list" and e
    by (induction ys) simp_all
  moreover have "push_back x (member_init h) = Inl InvalidAccess"
    by (simp add: push_back_def member_init_def vec_at_def)
  ultimately show ?thesis by (simp add: Deque_from_def)
qed

text \<open>
  Started from \<open>Deque()\<close> instead, the same pushes give the round trip.
\<close>

lemma round_trip_from_default:
  assumes "length source < 2 ^ 32"
  shows "\<exists>d. run (map PushBack source) (Deque_default h) = Inr d \<and>
           get_size d = length source \<and>
           (\<forall>i < length source. index_op d i = Inr (Some (source ! i)))"
proof -
  from assms have l: "length (map PushBack source) \<le> 2 ^ 32" by simp
  have lg: "logical (map PushBack source) = source"
    by (simp add: logical_def logical_push_backs)
  from run_default [OF l, of h]
  obtain d where d: "run (map PushBack source) (Deque_default h) = Inr d"
      "deque_inv d source (length source)"
    by (auto simp: lg)
  have "get_size d = length source"
    using deque_inv_facts(6) [OF d(2)] by (simp add: get_size_def)
  moreover have "\<forall>i < length source. index_op d i = Inr (Some (source ! i))"
    using index_op_inv [OF d(2) assms] by blast
  ultimately show ?thesis using d(1) by blast
qed

section \<open>The scenario of one hundred pushes and fifty pops\<close>

text \<open>
  C3. Starting from \<open>Deque()\<close>, \<open>push_back\<close> of the integers 1 to 100 in order followed
  by 50 calls of \<open>pop_front\<close> succeeds and leaves \<open>front() == 51\<close>, \<open>back() == 100\<close> and
  \<open>size() == 50\<close>.
\<close>

theorem push_100_pop_50_scenario:
  "\<exists>d. run (map PushBack [1..100] @ replicate 50 PopFront) (Deque_default h) = Inr d \<and>
       front d = Inr (Some 51) \<and> back_elem d = Inr (Some 100) \<and> get_size d = 50"
proof -
  define cs :: "int call list" where "cs = map PushBack [1..100] @ replicate 50 PopFront"
  have len: "length cs = 150" by (simp add: cs_def)
  have lg: "logical cs = drop 50 [1..100]"
    by (simp add: cs_def logical_def logical_push_backs logical_pop_fronts del: fold_replicate)
  have "length cs \<le> 2 ^ 32" by (simp add: len)
  from run_default [OF this, of h]
  obtain d where d: "run cs (Deque_default h) = Inr d" "deque_inv d (drop 50 [1..100]) 150"
    by (auto simp: lg len)
  have ne: "drop 50 [1..100] \<noteq> ([] :: int list)"
    by (simp add: upto_rec1 [of 1 100])
  have k: "(150::nat) < 2 ^ 32" by simp
  have "hd (drop 50 [1..100]) = (51::int)"
    by (simp add: hd_drop_conv_nth)
  with front_inv [OF d(2) k ne] have "front d = Inr (Some 51)" by simp
  moreover have "last (drop 50 [1..100]) = (100::int)"
    by (simp add: last_conv_nth ne)
  with back_elem_inv [OF d(2) k ne] have "back_elem d = Inr (Some 100)" by simp
  moreover have "get_size d = 50"
    using deque_inv_facts(6) [OF d(2)] by (simp add: get_size_def)
  ultimately show ?thesis using d(1) by (auto simp: cs_def)
qed

section \<open>The stack property\<close>

text \<open>
  C4. After any run of calls from \<open>Deque()\<close>, pushing the values \<open>vs\<close> at the back and
  then, as many times as there are values, reading \<open>back()\<close> and calling \<open>pop_back()\<close>
  yields the values in the reverse of the order they were pushed in. The run, the pushes
  and the pops together stay below \<open>2 ^ 32\<close> calls.
\<close>

theorem push_back_pop_back_reverses:
  assumes "length cs + 2 * length vs < 2 ^ 32"
  shows "\<exists>d. run (cs @ map PushBack vs) (Deque_default h) = Inr d \<and>
           drain_back (length vs) d = map (\<lambda>v. Inr (Some v)) (rev vs)"
proof -
  from assms have "length (cs @ map PushBack vs) \<le> 2 ^ 32" by simp
  from run_default [OF this, of h]
  obtain d where d: "run (cs @ map PushBack vs) (Deque_default h) = Inr d"
      "deque_inv d (logical (cs @ map PushBack vs)) (length cs + length vs)"
    by auto
  have "logical (cs @ map PushBack vs) = logical cs @ vs"
    by (simp add: logical_def logical_push_backs)
  with d(2) have "deque_inv d (logical cs @ vs) (length cs + length vs)" by simp
  moreover from assms have "length cs + length vs + length vs \<le> 2 ^ 32" by simp
  ultimately have "drain_back (length vs) d = map (\<lambda>v. Inr (Some v)) (rev vs)"
    by (rule drain_back_inv)
  with d(1) show ?thesis by blast
qed

theorem push_back_pop_back_reverses_witness:
  "length [PushFront (9::nat)] + 2 * length [1, 2, 3 :: nat] < 2 ^ 32 \<and>
   (\<exists>d. run ([PushFront 9] @ map PushBack [1, 2, 3 :: nat]) (Deque_default []) = Inr d \<and>
        drain_back 3 d = [Inr (Some 3), Inr (Some 2), Inr (Some 1)])"
  using push_back_pop_back_reverses [of "[PushFront (9::nat)]" "[1, 2, 3]" "[]"]
  by (simp add: numeral_3_eq_3)

section \<open>Dereferencing an iterator\<close>

text \<open>
  C5. \<open>get_value\<close> reads slot 17 of the block at table index 0, whatever the iterator's
  offset and index are. After \<open>push_back(10)\<close> and \<open>push_back(20)\<close> on \<open>Deque()\<close> the
  iterator \<open>begin() + 32\<close> has offset 0 and index 32; the element at
  \<open>(pivot + offset, index)\<close> is 20, while \<open>get_value\<close> designates the uninitialised slot
  17, the same slot it designates for \<open>begin()\<close>.
\<close>

theorem get_value_ignores_position:
  "\<exists>d. run [PushBack (10::nat), PushBack 20] (Deque_default []) = Inr d \<and>
       offset (plus_it (begin_it d) 32) = 0 \<and> index (plus_it (begin_it d) 32) = 32 \<and>
       element_at (heap d) (plus_it (begin_it d) 32) = Inr (Some 20) \<and>
       get_value (heap d) (plus_it (begin_it d) 32) = Inr None \<and>
       get_value (heap d) (begin_it d) = Inr None"
proof -
  obtain d where d: "run [PushBack (10::nat), PushBack 20] (Deque_default []) = Inr d"
    and f: "current_first d = 30" "first_storage d = 0" "pivot d = 0"
      "external_storage d = [Some 0, Some 1]"
      "heap d = [Some ((replicate 64 None)[31 := Some 10, 32 := Some 20]), Some (replicate 64 None)]"
    by (simp add: push_back_def eval_defs)
  have it: "plus_it (begin_it d) 32 =
      \<lparr>offset = 0, index = 32, storage = [Some 0, Some 1], pivot_it = 0\<rparr>"
    and b: "begin_it d = \<lparr>offset = 0, index = 0, storage = [Some 0, Some 1], pivot_it = 0\<rparr>"
    by (simp_all add: f begin_it_def Deque_iterator_def plus_it_def plus_assign_def
        initial_size_def size_add_def size_t_def to_int_def)
  have "element_at (heap d) (plus_it (begin_it d) 32) = Inr (Some 20)"
    and "get_value (heap d) (plus_it (begin_it d) 32) = Inr None"
    unfolding it by (simp_all add: f element_at_def get_value_def size_t_def vec_at_def load_def)
  moreover have "get_value (heap d) (begin_it d) = Inr None"
    unfolding b by (simp add: f get_value_def vec_at_def load_def)
  moreover have "offset (plus_it (begin_it d) 32) = 0" "index (plus_it (begin_it d) 32) = 32"
    unfolding it by simp_all
  ultimately show ?thesis using d by blast
qed

section \<open>Comparing iterators\<close>

text \<open>
  C6. \<open>operator!=\<close> is true only when both components differ. On \<open>Deque()\<close> the
  iterators \<open>begin()\<close> and \<open>begin() + 1\<close> have the same offset and different indices,
  and \<open>operator!=\<close> returns false for them.
\<close>

theorem not_equal_misses_index_difference:
  "offset (begin_it (Deque_default [])) = 0 \<and> index (begin_it (Deque_default [])) = 0 \<and>
   offset (plus_it (begin_it (Deque_default [])) 1) = 0 \<and>
   index (plus_it (begin_it (Deque_default [])) 1) = 1 \<and>
   \<not> not_equal_it (begin_it (Deque_default [])) (plus_it (begin_it (Deque_default [])) 1)"
  by (simp add: eval_defs begin_it_def Deque_iterator_def plus_it_def plus_assign_def not_equal_it_def)

section \<open>Advancing an iterator\<close>

text \<open>
  C7. From offset 0 and index 0, \<open>operator+=\<close> by 64 gives offset 1 and index 64: the
  index is outside the block and the linear position \<open>offset * 64 + index\<close> has moved by
  128. From the same iterator \<open>operator-=\<close> by 64 gives offset \<open>-2\<close> and index 64: the
  linear position has moved by \<open>-64\<close>, and the index is outside the block again.
\<close>

theorem advance_leaves_index_out_of_block:
  "plus_assign (begin_it (Deque_default [])) 64 =
     \<lparr>offset = 1, index = 64, storage = [Some 0, Some 1], pivot_it = 0\<rparr> \<and>
   minus_assign (begin_it (Deque_default [])) 64 =
     \<lparr>offset = - 2, index = 64, storage = [Some 0, Some 1], pivot_it = 0\<rparr>"
  by (simp add: eval_defs begin_it_def Deque_iterator_def plus_assign_def minus_assign_def)

section \<open>Checked access\<close>

text \<open>
  C8. The assertion of \<open>at\<close> admits an index equal to the size. On the empty container
  \<open>at(0)\<close> does not fail and designates an uninitialised slot; after \<open>push_back(1)\<close>,
  \<open>push_back(2)\<close> and \<open>pop_back()\<close> the size is 1 and \<open>at(1)\<close> designates the slot that
  still holds the popped value 2.
\<close>

theorem at_accepts_index_equal_to_size:
  "get_size (Deque_default ([] :: nat store)) = 0 \<and>
   at (Deque_default ([] :: nat store)) 0 = Inr None \<and>
   (\<exists>d. run [PushBack (1::nat), PushBack 2, PopBack] (Deque_default []) = Inr d \<and>
        get_size d = 1 \<and> at d 1 = Inr (Some 2))"
  by (simp add: at_def index_op_def get_size_def push_back_def pop_back_def empty_deque_def eval_defs)

section \<open>Popping from an empty container\<close>

text \<open>
  C9. On an empty container \<open>pop_back()\<close> and \<open>pop_front()\<close> return the state they were
  given, and \<open>size()\<close> stays 0. Neither function reads the table or a block, so neither
  has a failing branch.
\<close>

theorem pop_on_empty_is_noop:
  "empty_deque d \<Longrightarrow>
   pop_back d = d \<and> pop_front d = d \<and>
   get_size (pop_back d) = 0 \<and> get_size (pop_front d) = 0"
  by (simp add: pop_back_def pop_front_def get_size_def empty_deque_def)

theorem pop_on_empty_is_noop_witness:
  "empty_deque (Deque_default ([] :: nat store)) \<and>
   pop_back (Deque_default ([] :: nat store)) = Deque_default [] \<and>
   pop_front (Deque_default ([] :: nat store)) = Deque_default [] \<and>
   get_size (pop_back (Deque_default ([] :: nat store))) = 0 \<and>
   get_size (pop_front (Deque_default ([] :: nat store))) = 0"
proof -
  have e: "empty_deque (Deque_default ([] :: nat store))"
    by (simp add: empty_deque_def Deque_default_def member_init_def make_storage_def)
  from pop_on_empty_is_noop [OF e] e show ?thesis by blast
qed

section \<open>The iterators of \<open>begin()\<close> and \<open>end()\<close>\<close>









end
